theory Spec2Isabelle
  imports Complex_Main
begin

section \<open>Numbers and vectors\<close>

text \<open>
  JavaScript numbers are IEEE 754 doubles. \<open>toDouble\<close> rounds a real number to the
  nearest double, ties to even: a double has 53 significant bits and a binary exponent
  from -1022 to 1023, and below \<open>2^-1022\<close> the doubles are spaced \<open>2^-1074\<close> apart. The
  exponent of a number is found by halving it while it is at least 2, or doubling it
  while it is below 1, at most 1023 and 1022 times. A result of magnitude \<open>2^1024\<close> or
  more is \<open>Infinity\<close> in the program; \<open>toDouble\<close> keeps it finite, which changes no
  comparison with a smaller number.

  The sampling interval of the curve builder is computed with this rounding. The
  geometry (positions, normals, costs) is kept over the real numbers.
\<close>

fun halvings :: "nat \<Rightarrow> real \<Rightarrow> nat" where
  "halvings 0 x = 0"
| "halvings (Suc n) x = (if 2 \<le> x then Suc (halvings n (x / 2)) else 0)"

fun doublings :: "nat \<Rightarrow> real \<Rightarrow> nat" where
  "doublings 0 x = 0"
| "doublings (Suc n) x = (if x < 1 then Suc (doublings n (2 * x)) else 0)"

definition exponent :: "real \<Rightarrow> int" where
  "exponent x = (if 1 \<le> \<bar>x\<bar> then int (halvings 1023 \<bar>x\<bar>) else - int (doublings 1022 \<bar>x\<bar>))"

definition pow2 :: "int \<Rightarrow> real" where
  "pow2 e = (if 0 \<le> e then 2 ^ nat e else 1 / 2 ^ nat (- e))"

definition roundTiesToEven :: "real \<Rightarrow> int" where
  "roundTiesToEven y =
     (if y - of_int \<lfloor>y\<rfloor> < 1 / 2 then \<lfloor>y\<rfloor>
      else if 1 / 2 < y - of_int \<lfloor>y\<rfloor> then \<lfloor>y\<rfloor> + 1
      else if even \<lfloor>y\<rfloor> then \<lfloor>y\<rfloor> else \<lfloor>y\<rfloor> + 1)"

definition toDouble :: "real \<Rightarrow> real" where
  "toDouble x = of_int (roundTiesToEven (x / pow2 (exponent x - 52))) * pow2 (exponent x - 52)"

text \<open>
  The value \<open>Infinity\<close>, which the path search leaves in \<open>shortestEdge\<close> when no path
  has three points, is kept as a separate constructor. \<open>halve\<close> is \<open>x / 2\<close>;
  \<open>Math_max\<close> and \<open>Math_min\<close> are \<open>Math.max( a, x )\<close> and \<open>Math.min( a, x )\<close>.
\<close>

datatype jsnumber = Finite real | Infinity




text \<open>
  The part of three.js \<open>Vector3\<close> that the program calls, over the reals:
  \<open>subVectors\<close>, \<open>addVectors\<close>, \<open>dot\<close>, \<open>cross\<close>, \<open>length\<close>, \<open>multiplyScalar\<close>,
  \<open>divideScalar\<close> (a multiplication by the reciprocal), \<open>normalize\<close> (which divides by
  \<open>length() || 1\<close>), \<open>distanceToSquared\<close> and \<open>distanceTo\<close>.
\<close>

datatype Vector3 = Vector3 (vx: real) (vy: real) (vz: real)

definition subVectors :: "Vector3 \<Rightarrow> Vector3 \<Rightarrow> Vector3" where
  "subVectors a b = Vector3 (vx a - vx b) (vy a - vy b) (vz a - vz b)"

definition addVectors :: "Vector3 \<Rightarrow> Vector3 \<Rightarrow> Vector3" where
  "addVectors a b = Vector3 (vx a + vx b) (vy a + vy b) (vz a + vz b)"

definition dot :: "Vector3 \<Rightarrow> Vector3 \<Rightarrow> real" where
  "dot a b = vx a * vx b + vy a * vy b + vz a * vz b"

definition cross :: "Vector3 \<Rightarrow> Vector3 \<Rightarrow> Vector3" where
  "cross a b = Vector3 (vy a * vz b - vz a * vy b)
                       (vz a * vx b - vx a * vz b)
                       (vx a * vy b - vy a * vx b)"

definition multiplyScalar :: "Vector3 \<Rightarrow> real \<Rightarrow> Vector3" where
  "multiplyScalar a k = Vector3 (vx a * k) (vy a * k) (vz a * k)"

definition divideScalar :: "Vector3 \<Rightarrow> real \<Rightarrow> Vector3" where
  "divideScalar a k = multiplyScalar a (1 / k)"

definition lengthV :: "Vector3 \<Rightarrow> real" where
  "lengthV a = sqrt (vx a * vx a + vy a * vy a + vz a * vz a)"

definition normalizeV :: "Vector3 \<Rightarrow> Vector3" where
  "normalizeV a = divideScalar a (if lengthV a = 0 then 1 else lengthV a)"

definition distanceToSquared :: "Vector3 \<Rightarrow> Vector3 \<Rightarrow> real" where
  "distanceToSquared a b =
     (vx a - vx b) * (vx a - vx b) + (vy a - vy b) * (vy a - vy b) + (vz a - vz b) * (vz a - vz b)"

definition distanceTo :: "Vector3 \<Rightarrow> Vector3 \<Rightarrow> real" where
  "distanceTo a b = sqrt (distanceToSquared a b)"

section \<open>JavaScript arrays\<close>

text \<open>
  \<open>indexOf\<close> gives the first position of an element (\<open>None\<close> for \<open>-1\<close>);
  \<open>splice( i, 1 )\<close> with \<open>i \<ge> 0\<close> removes the element at \<open>i\<close> and does nothing when \<open>i\<close>
  is past the end; \<open>splice( -1, 1 )\<close> removes the last element; \<open>splice( i, 0, x )\<close>
  inserts \<open>x\<close> before position \<open>i\<close>.
\<close>

fun indexOf :: "'a list \<Rightarrow> 'a \<Rightarrow> nat option" where
  "indexOf [] x = None"
| "indexOf (y # ys) x =
     (if y = x then Some 0 else (case indexOf ys x of None \<Rightarrow> None | Some i \<Rightarrow> Some (Suc i)))"

definition splice1 :: "nat \<Rightarrow> 'a list \<Rightarrow> 'a list" where
  "splice1 i xs = take i xs @ drop (Suc i) xs"

definition spliceAt :: "nat option \<Rightarrow> 'a list \<Rightarrow> 'a list" where
  "spliceAt k xs = (case k of None \<Rightarrow> butlast xs | Some i \<Rightarrow> splice1 i xs)"

definition removeFound :: "nat option \<Rightarrow> 'a list \<Rightarrow> 'a list" where
  "removeFound k xs = (case k of None \<Rightarrow> xs | Some i \<Rightarrow> splice1 i xs)"

definition insertAt :: "nat \<Rightarrow> 'a \<Rightarrow> 'a list \<Rightarrow> 'a list" where
  "insertAt i x xs = take i xs @ x # drop i xs"

section \<open>The mesh graph\<close>

text \<open>
  Vertices and triangles are objects with identity; they refer to each other. The model
  keeps two object stores, from object identifiers to records, and every reference is an
  identifier. A vertex keeps its position, its index in \<open>arrVertices\<close>, its incident
  faces, its neighbours, and the cached collapse cost and collapse neighbour
  (\<open>None\<close> for \<open>null\<close>). The fields \<open>minCost\<close> and \<open>totalCost\<close>, which only
  \<open>computeEdgeCostAtVertex\<close> reads, are accumulators of its loop in the model.
\<close>

record Vertex =
  position :: Vector3
  index :: nat
  faces :: "nat list"
  neighbors :: "nat list"
  collapseCost :: real
  collapseNeighbor :: "nat option"

record Triangle =
  v1 :: nat
  v2 :: nat
  v3 :: nat
  normal :: Vector3
  center :: Vector3
  hash :: string
  degree :: nat

record VerticesAndFaces =
  vertexOf :: "nat \<Rightarrow> Vertex"
  faceOf :: "nat \<Rightarrow> Triangle"
  arrFaces :: "nat list"
  arrVertices :: "nat list"
  arrVerticesByCost :: "nat list"

datatype error = TypeError

definition updVertex :: "nat \<Rightarrow> (Vertex \<Rightarrow> Vertex) \<Rightarrow> VerticesAndFaces \<Rightarrow> VerticesAndFaces" where
  "updVertex v f s = s\<lparr>vertexOf := (vertexOf s)(v := f (vertexOf s v))\<rparr>"

definition updFace :: "nat \<Rightarrow> (Triangle \<Rightarrow> Triangle) \<Rightarrow> VerticesAndFaces \<Rightarrow> VerticesAndFaces" where
  "updFace t f s = s\<lparr>faceOf := (faceOf s)(t := f (faceOf s t))\<rparr>"

subsection \<open>Triangle\<close>

definition hasVertex :: "Triangle \<Rightarrow> nat \<Rightarrow> bool" where
  "hasVertex t v = (v = v1 t \<or> v = v2 t \<or> v = v3 t)"

definition computeNormal :: "VerticesAndFaces \<Rightarrow> nat \<Rightarrow> Vector3" where
  "computeNormal s t =
     (let vA = position (vertexOf s (v1 (faceOf s t)));
          vB = position (vertexOf s (v2 (faceOf s t)));
          vC = position (vertexOf s (v3 (faceOf s t)))
      in normalizeV (cross (subVectors vC vB) (subVectors vA vB)))"

definition computeCenter :: "VerticesAndFaces \<Rightarrow> nat \<Rightarrow> Vector3" where
  "computeCenter s t =
     divideScalar (addVectors (addVectors (position (vertexOf s (v1 (faceOf s t))))
                                          (position (vertexOf s (v2 (faceOf s t)))))
                              (position (vertexOf s (v3 (faceOf s t))))) 3"

subsection \<open>Vertex\<close>

definition addUniqueNeighbor :: "nat \<Rightarrow> nat \<Rightarrow> VerticesAndFaces \<Rightarrow> VerticesAndFaces" where
  "addUniqueNeighbor this vertex s =
     (if indexOf (neighbors (vertexOf s this)) vertex = None
      then updVertex this (\<lambda>r. r\<lparr>neighbors := neighbors r @ [vertex]\<rparr>) s
      else s)"

definition removeIfNonNeighbor :: "nat \<Rightarrow> nat \<Rightarrow> VerticesAndFaces \<Rightarrow> VerticesAndFaces" where
  "removeIfNonNeighbor this n s =
     (case indexOf (neighbors (vertexOf s this)) n of
        None \<Rightarrow> s
      | Some offset \<Rightarrow>
          if (\<exists>t \<in> set (faces (vertexOf s this)). hasVertex (faceOf s t) n) then s
          else updVertex this (\<lambda>r. r\<lparr>neighbors := splice1 offset (neighbors r)\<rparr>) s)"

subsection \<open>Collapse costs\<close>

text \<open>
  \<open>computeEdgeCollapseCost( u, v )\<close>: the faces of \<open>u\<close> that contain \<open>v\<close> are collected
  in \<open>sideFaces\<close>; with exactly two of them the curvature is accumulated over the faces
  of \<open>u\<close>, starting from 0, and otherwise it is 1.
\<close>

definition sideFaces :: "VerticesAndFaces \<Rightarrow> nat \<Rightarrow> nat \<Rightarrow> nat list" where
  "sideFaces s u v = filter (\<lambda>t. hasVertex (faceOf s t) v) (faces (vertexOf s u))"

definition minCurvature :: "VerticesAndFaces \<Rightarrow> nat \<Rightarrow> nat \<Rightarrow> nat \<Rightarrow> real" where
  "minCurvature s w0 w1 t =
     min 1 ((1 - max (dot (normal (faceOf s t)) (normal (faceOf s w0)))
                     (dot (normal (faceOf s t)) (normal (faceOf s w1)))) / 2)"

definition curvatureOf :: "VerticesAndFaces \<Rightarrow> nat \<Rightarrow> nat \<Rightarrow> real" where
  "curvatureOf s u v =
     (let side = sideFaces s u v in
      if length side = 2
      then fold (\<lambda>t curvature. max curvature (minCurvature s (side ! 0) (side ! 1) t))
                (faces (vertexOf s u)) 0
      else 1)"

definition computeEdgeCollapseCost :: "VerticesAndFaces \<Rightarrow> nat \<Rightarrow> nat \<Rightarrow> real" where
  "computeEdgeCollapseCost s u v =
     distanceTo (position (vertexOf s v)) (position (vertexOf s u)) * curvatureOf s u v"

text \<open>
  \<open>computeEdgeCostAtVertex( v )\<close>: the loop over the neighbours keeps the current
  collapse neighbour, \<open>minCost\<close> and \<open>totalCost\<close>.
\<close>

fun costLoop :: "VerticesAndFaces \<Rightarrow> nat \<Rightarrow> nat list \<Rightarrow> nat option \<times> real \<times> real
                 \<Rightarrow> nat option \<times> real \<times> real" where
  "costLoop s v [] acc = acc"
| "costLoop s v (neighbor # rest) (cn, minCost, totalCost) =
     (let c = computeEdgeCollapseCost s v neighbor in
      costLoop s v rest
        (case cn of
           None \<Rightarrow> (Some neighbor, c, c)
         | Some n \<Rightarrow> if c < minCost then (Some neighbor, c, totalCost + c)
                     else (Some n, minCost, totalCost + c)))"

definition computeEdgeCostAtVertex :: "nat \<Rightarrow> VerticesAndFaces \<Rightarrow> VerticesAndFaces" where
  "computeEdgeCostAtVertex v s =
     (let ns = neighbors (vertexOf s v) in
      if length ns = 0
      then updVertex v (\<lambda>r. r\<lparr>collapseNeighbor := None, collapseCost := - 0.01\<rparr>) s
      else (case costLoop s v ns (None, 0, 0) of
              (cn, minCost, totalCost) \<Rightarrow>
                updVertex v (\<lambda>r. r\<lparr>collapseNeighbor := cn,
                                    collapseCost := totalCost / real (length ns)\<rparr>) s))"

subsection \<open>Building triangles and hashes\<close>

text \<open>
  The \<open>Triangle\<close> constructor stores the three vertex references, computes normal and
  centre, registers the face with its three vertices and links them as neighbours. The
  hash starts empty and the degree at 0.
\<close>

definition pushFace :: "nat \<Rightarrow> nat \<Rightarrow> VerticesAndFaces \<Rightarrow> VerticesAndFaces" where
  "pushFace v t s = updVertex v (\<lambda>r. r\<lparr>faces := faces r @ [t]\<rparr>) s"

definition newTriangle :: "nat \<Rightarrow> nat \<Rightarrow> nat \<Rightarrow> nat \<Rightarrow> VerticesAndFaces \<Rightarrow> VerticesAndFaces" where
  "newTriangle t a b c s =
     (let s0 = s\<lparr>faceOf := (faceOf s)(t := \<lparr>v1 = a, v2 = b, v3 = c,
                    normal = Vector3 0 0 0, center = Vector3 0 0 0, hash = [], degree = 0\<rparr>)\<rparr>;
          s1 = updFace t (\<lambda>r. r\<lparr>normal := computeNormal s0 t\<rparr>) s0;
          s2 = updFace t (\<lambda>r. r\<lparr>center := computeCenter s1 t\<rparr>) s1;
          s3 = addUniqueNeighbor a c (addUniqueNeighbor a b (pushFace a t s2));
          s4 = addUniqueNeighbor b c (addUniqueNeighbor b a (pushFace b t s3));
          s5 = addUniqueNeighbor c b (addUniqueNeighbor c a (pushFace c t s4))
      in s5)"

text \<open>Decimal digits of a number, as a template string prints them.\<close>

function toString :: "nat \<Rightarrow> string" where
  "toString n = (if n < 10 then [''0123456789'' ! n]
                 else toString (n div 10) @ [''0123456789'' ! (n mod 10)])"
  by pat_completeness auto
termination
  by (relation "measure (\<lambda>n. n)") auto

declare toString.simps [simp del]

definition computeHash :: "nat \<Rightarrow> VerticesAndFaces \<Rightarrow> VerticesAndFaces" where
  "computeHash t s =
     (let indexes = sort [index (vertexOf s (v1 (faceOf s t))),
                          index (vertexOf s (v2 (faceOf s t))),
                          index (vertexOf s (v3 (faceOf s t)))]
      in updFace t (\<lambda>r. r\<lparr>hash := toString (indexes ! 0) @ '','' @ toString (indexes ! 1)
                                      @ '','' @ toString (indexes ! 2)\<rparr>) s)"

definition computeFaceHashes :: "VerticesAndFaces \<Rightarrow> VerticesAndFaces" where
  "computeFaceHashes s = fold computeHash (arrFaces s) s"

subsection \<open>Removing a vertex\<close>

text \<open>
  The first loop of \<open>removeVertex\<close> pops the neighbours of the vertex one by one and
  deletes the vertex from the neighbour list of each.
\<close>

function purgeNeighbors :: "nat \<Rightarrow> VerticesAndFaces \<Rightarrow> VerticesAndFaces" where
  "purgeNeighbors vertex s =
     (let ns = neighbors (vertexOf s vertex) in
      if ns = [] then s
      else
        (let n = last ns;
             s1 = updVertex vertex (\<lambda>r. r\<lparr>neighbors := butlast (neighbors r)\<rparr>) s;
             s2 = (case indexOf (neighbors (vertexOf s1 n)) vertex of
                     None \<Rightarrow> s1
                   | Some k \<Rightarrow> updVertex n (\<lambda>r. r\<lparr>neighbors := splice1 k (neighbors r)\<rparr>) s1)
         in purgeNeighbors vertex s2))"
  by pat_completeness auto
termination
proof (relation "measure (\<lambda>(vertex, s). length (neighbors (vertexOf s vertex)))")
  show "wf (measure (\<lambda>(vertex, s). length (neighbors (vertexOf s vertex))))" by simp
next
  fix vertex :: nat and s :: VerticesAndFaces and ns n s1 s2
  assume ns: "ns = neighbors (vertexOf s vertex)" and ne: "ns \<noteq> []"
    and n: "n = last ns"
    and s1: "s1 = updVertex vertex (\<lambda>r. r\<lparr>neighbors := butlast (neighbors r)\<rparr>) s"
    and s2: "s2 = (case indexOf (neighbors (vertexOf s1 n)) vertex of
                     None \<Rightarrow> s1
                   | Some k \<Rightarrow> updVertex n (\<lambda>r. r\<lparr>neighbors := splice1 k (neighbors r)\<rparr>) s1)"
  have l1: "length (neighbors (vertexOf s1 vertex)) < length ns"
    using ns ne s1 by (simp add: updVertex_def)
  have "length (neighbors (vertexOf s2 vertex)) \<le> length (neighbors (vertexOf s1 vertex))"
    using s2 by (auto simp: updVertex_def splice1_def split: option.splits)
  with l1 ns show "((vertex, s2), (vertex, s)) \<in> measure (\<lambda>(vertex, s). length (neighbors (vertexOf s vertex)))"
    by simp
qed

declare purgeNeighbors.simps [simp del]

text \<open>
  The rest of \<open>removeVertex\<close>: the vertex leaves \<open>arrVertices\<close>, every vertex from its
  position on gets its new index, and \<open>arrVerticesByCost\<close> loses the entry equal to the
  old index and has every larger entry decremented.
\<close>

definition reindexFrom :: "nat \<Rightarrow> VerticesAndFaces \<Rightarrow> VerticesAndFaces" where
  "reindexFrom k s =
     fold (\<lambda>i s'. updVertex (arrVertices s' ! i) (\<lambda>r. r\<lparr>index := i\<rparr>) s')
          [k ..< length (arrVertices s)] s"

definition removeVertex :: "nat \<Rightarrow> VerticesAndFaces \<Rightarrow> VerticesAndFaces" where
  "removeVertex vertex s =
     (let s1 = purgeNeighbors vertex s;
          k = index (vertexOf s1 vertex);
          s2 = s1\<lparr>arrVertices := splice1 k (arrVertices s1)\<rparr>;
          s3 = reindexFrom k s2;
          byCost = removeFound (indexOf (arrVerticesByCost s3) k) (arrVerticesByCost s3)
      in s3\<lparr>arrVerticesByCost := map (\<lambda>i. if i > k then i - 1 else i) byCost\<rparr>)"

subsection \<open>Removing a face\<close>

definition dropFace :: "nat \<Rightarrow> nat \<Rightarrow> VerticesAndFaces \<Rightarrow> VerticesAndFaces" where
  "dropFace f vertex s =
     updVertex vertex (\<lambda>r. r\<lparr>faces := removeFound (indexOf (faces r) f) (faces r)\<rparr>) s"

definition removeNonNeighbors :: "nat \<Rightarrow> nat \<Rightarrow> VerticesAndFaces \<Rightarrow> VerticesAndFaces" where
  "removeNonNeighbors a b s = removeIfNonNeighbor b a (removeIfNonNeighbor a b s)"

definition removeFace :: "nat \<Rightarrow> VerticesAndFaces \<Rightarrow> VerticesAndFaces" where
  "removeFace f s =
     (let s1 = s\<lparr>arrFaces := removeFound (indexOf (arrFaces s) f) (arrFaces s)\<rparr>;
          a = v1 (faceOf s1 f);
          b = v2 (faceOf s1 f);
          c = v3 (faceOf s1 f);
          s2 = dropFace f c (dropFace f b (dropFace f a s1))
      in removeNonNeighbors c a (removeNonNeighbors b c (removeNonNeighbors a b s2)))"

subsection \<open>Populating the graph\<close>

text \<open>
  \<open>populateFromGeometry\<close> after \<open>indexAndMergeVertices\<close>: the input is the welded
  position list and the index triples. Vertex \<open>i\<close> is the object created for position
  \<open>i\<close>, face \<open>t\<close> the object created for triple \<open>t\<close>. An index past the position list
  yields \<open>undefined\<close>, whose position the \<open>Triangle\<close> constructor cannot read.
\<close>

definition newVertex :: "Vector3 \<Rightarrow> nat \<Rightarrow> Vertex" where
  "newVertex p i = \<lparr>position = p, index = i, faces = [], neighbors = [],
                    collapseCost = 0, collapseNeighbor = None\<rparr>"

definition emptyMesh :: "Vector3 list \<Rightarrow> VerticesAndFaces" where
  "emptyMesh positions =
     \<lparr>vertexOf = (\<lambda>i. newVertex (if i < length positions then positions ! i else Vector3 0 0 0) i),
      faceOf = (\<lambda>t. \<lparr>v1 = 0, v2 = 0, v3 = 0, normal = Vector3 0 0 0, center = Vector3 0 0 0,
                       hash = [], degree = 0\<rparr>),
      arrFaces = [],
      arrVertices = [0 ..< length positions],
      arrVerticesByCost = []\<rparr>"

definition lookupVertex :: "VerticesAndFaces \<Rightarrow> nat \<Rightarrow> nat option" where
  "lookupVertex s i = (if i < length (arrVertices s) then Some (arrVertices s ! i) else None)"

fun addTriangles :: "(nat \<times> nat \<times> nat) list \<Rightarrow> VerticesAndFaces \<Rightarrow> error + VerticesAndFaces" where
  "addTriangles [] s = Inr s"
| "addTriangles ((a, b, c) # rest) s =
     (case (lookupVertex s a, lookupVertex s b, lookupVertex s c) of
        (Some va, Some vb, Some vc) \<Rightarrow>
          (let t = length (arrFaces s);
               s1 = newTriangle t va vb vc s
           in addTriangles rest (s1\<lparr>arrFaces := arrFaces s1 @ [t]\<rparr>))
      | _ \<Rightarrow> Inl TypeError)"

definition populateFromGeometry ::
    "Vector3 list \<Rightarrow> (nat \<times> nat \<times> nat) list \<Rightarrow> error + VerticesAndFaces" where
  "populateFromGeometry positions triangles =
     (case addTriangles triangles (emptyMesh positions) of
        Inl e \<Rightarrow> Inl e
      | Inr s1 \<Rightarrow>
          (let s2 = fold computeEdgeCostAtVertex (arrVertices s1) s1;
               s3 = s2\<lparr>arrVerticesByCost :=
                         sort_key (\<lambda>i. collapseCost (vertexOf s2 (arrVertices s2 ! i)))
                                  [0 ..< length (arrVertices s2)]\<rparr>
           in Inr (computeFaceHashes s3)))"

subsection \<open>Collapsing\<close>

text \<open>
  The binary search that finds where an index goes in \<open>arrVerticesByCost\<close>. It starts
  with \<open>low = 0\<close> and \<open>high = length - 1\<close>; on the empty array \<open>high\<close> is \<open>-1\<close> in the
  program and 0 here, and in both the loop is not entered. The sum \<open>low + high\<close> is not
  negative, so \<open>>>> 1\<close> halves it.
\<close>

function binarySearch :: "VerticesAndFaces \<Rightarrow> real \<Rightarrow> nat \<Rightarrow> nat \<Rightarrow> error + nat" where
  "binarySearch s cost low high =
     (if low < high then
        (let mid = (low + high) div 2 in
         if mid < length (arrVerticesByCost s) then
           (case lookupVertex s (arrVerticesByCost s ! mid) of
              None \<Rightarrow> Inl TypeError
            | Some w \<Rightarrow>
                if collapseCost (vertexOf s w) < cost
                then binarySearch s cost (mid + 1) high
                else binarySearch s cost low mid)
         else Inl TypeError)
      else Inr low)"
  by pat_completeness auto
termination
  by (relation "measure (\<lambda>(s, cost, low, high). high - low)") auto

declare binarySearch.simps [simp del]

text \<open>
  One round of the last loop of an iteration: the cost of a former neighbour is
  recomputed, its index is taken out of \<open>arrVerticesByCost\<close> (\<open>splice\<close> at \<open>indexOf\<close>,
  which is the last position when the index is not found) and put back at the position
  the binary search returns.
\<close>

definition reinsertVertex :: "nat \<Rightarrow> VerticesAndFaces \<Rightarrow> error + VerticesAndFaces" where
  "reinsertVertex tmpVertex s =
     (let s1 = computeEdgeCostAtVertex tmpVertex s;
          cost = collapseCost (vertexOf s1 tmpVertex);
          i = index (vertexOf s1 tmpVertex);
          byCost = spliceAt (indexOf (arrVerticesByCost s1) i) (arrVerticesByCost s1);
          s2 = s1\<lparr>arrVerticesByCost := byCost\<rparr>
      in case binarySearch s2 cost 0 (length byCost - 1) of
           Inl e \<Rightarrow> Inl e
         | Inr low \<Rightarrow> Inr (s2\<lparr>arrVerticesByCost := insertAt low i byCost\<rparr>))"

fun reinsertAll :: "nat list \<Rightarrow> VerticesAndFaces \<Rightarrow> error + VerticesAndFaces" where
  "reinsertAll [] s = Inr s"
| "reinsertAll (tmpVertex # rest) s =
     (case reinsertVertex tmpVertex s of Inl e \<Rightarrow> Inl e | Inr s1 \<Rightarrow> reinsertAll rest s1)"

text \<open>
  The loop that deletes the faces on the edge \<open>uv\<close> runs \<open>i\<close> from the last position of
  \<open>u.faces\<close> down to 0 and reads \<open>u.faces[i]\<close> afresh each time; a position past the
  end is skipped (\<open>?.\<close>). The first argument is \<open>i + 1\<close>.
\<close>

fun deleteEdgeFaces :: "nat \<Rightarrow> nat \<Rightarrow> nat \<Rightarrow> VerticesAndFaces \<Rightarrow> VerticesAndFaces" where
  "deleteEdgeFaces 0 u v s = s"
| "deleteEdgeFaces (Suc i) u v s =
     (let u_faces = faces (vertexOf s u) in
      deleteEdgeFaces i u v
        (if i < length u_faces \<and> hasVertex (faceOf s (u_faces ! i)) v
         then removeFace (u_faces ! i) s else s))"

text \<open>
  The loop that hands the remaining faces of \<open>u\<close> over to \<open>v\<close>. Each face leaves
  \<open>u.faces\<close>, joins \<open>v.faces\<close>, has its reference to \<open>u\<close> replaced, and the neighbour
  lists of its vertices and its normal and centre are brought up to date.
\<close>

definition replaceVertex :: "nat \<Rightarrow> nat \<Rightarrow> Triangle \<Rightarrow> Triangle" where
  "replaceVertex u v r =
     (if u = v1 r then r\<lparr>v1 := v\<rparr>
      else if u = v2 r then r\<lparr>v2 := v\<rparr>
      else if u = v3 r then r\<lparr>v3 := v\<rparr>
      else r)"

definition unlinkFromFace :: "nat \<Rightarrow> nat \<Rightarrow> VerticesAndFaces \<Rightarrow> VerticesAndFaces" where
  "unlinkFromFace u face s =
     (let s1 = removeIfNonNeighbor (v1 (faceOf s face)) u (removeIfNonNeighbor u (v1 (faceOf s face)) s);
          s2 = removeIfNonNeighbor (v2 (faceOf s face)) u (removeIfNonNeighbor u (v2 (faceOf s face)) s1);
          s3 = removeIfNonNeighbor (v3 (faceOf s face)) u (removeIfNonNeighbor u (v3 (faceOf s face)) s2)
      in s3)"

definition linkFace :: "nat \<Rightarrow> VerticesAndFaces \<Rightarrow> VerticesAndFaces" where
  "linkFace face s =
     (let a = v1 (faceOf s face); b = v2 (faceOf s face); c = v3 (faceOf s face);
          s1 = addUniqueNeighbor a c (addUniqueNeighbor a b s);
          s2 = addUniqueNeighbor b c (addUniqueNeighbor b a s1);
          s3 = addUniqueNeighbor c b (addUniqueNeighbor c a s2)
      in s3)"

definition moveFace :: "nat \<Rightarrow> nat \<Rightarrow> nat \<Rightarrow> VerticesAndFaces \<Rightarrow> VerticesAndFaces" where
  "moveFace i u v s =
     (let face = faces (vertexOf s u) ! i;
          s1 = updVertex u (\<lambda>r. r\<lparr>faces := splice1 i (faces r)\<rparr>) s;
          s2 = pushFace v face s1;
          s3 = updFace face (replaceVertex u v) s2;
          s4 = linkFace face (unlinkFromFace u face s3);
          s5 = updFace face (\<lambda>r. r\<lparr>normal := computeNormal s4 face\<rparr>) s4
      in updFace face (\<lambda>r. r\<lparr>center := computeCenter s5 face\<rparr>) s5)"

fun moveFaces :: "nat \<Rightarrow> nat \<Rightarrow> nat \<Rightarrow> VerticesAndFaces \<Rightarrow> error + VerticesAndFaces" where
  "moveFaces 0 u v s = Inr s"
| "moveFaces (Suc i) u v s =
     (if i < length (faces (vertexOf s u)) then moveFaces i u v (moveFace i u v s)
      else Inl TypeError)"

text \<open>
  One iteration of the loop of \<open>collapse\<close>. Reading \<open>collapseNeighbor\<close> of an
  \<open>undefined\<close> vertex raises a \<open>TypeError\<close>.
\<close>

definition collapseStep :: "VerticesAndFaces \<Rightarrow> error + VerticesAndFaces" where
  "collapseStep s =
     (case arrVerticesByCost s of
        [] \<Rightarrow> Inl TypeError
      | i0 # _ \<Rightarrow>
          (case lookupVertex s i0 of
             None \<Rightarrow> Inl TypeError
           | Some u \<Rightarrow>
               (case collapseNeighbor (vertexOf s u) of
                  None \<Rightarrow> Inr (removeVertex u s)
                | Some v \<Rightarrow>
                    (let tmpVertices = neighbors (vertexOf s u);
                         s1 = deleteEdgeFaces (length (faces (vertexOf s u))) u v s
                     in case moveFaces (length (faces (vertexOf s1 u))) u v s1 of
                          Inl e \<Rightarrow> Inl e
                        | Inr s2 \<Rightarrow> reinsertAll tmpVertices (removeVertex u s2)))))"

fun collapseLoop :: "nat \<Rightarrow> VerticesAndFaces \<Rightarrow> error + VerticesAndFaces" where
  "collapseLoop 0 s = Inr s"
| "collapseLoop (Suc n) s =
     (case collapseStep s of Inl e \<Rightarrow> Inl e | Inr s1 \<Rightarrow> collapseLoop n s1)"

text \<open>
  \<open>collapse( count )\<close>: a count above the number of vertices is replaced by half that
  number, and the loop runs while \<open>i < count\<close>. The statement after the loop,
  \<open>this.computeFaceHashes\<close>, names the method without calling it, so nothing follows
  the loop.
\<close>

definition loopCount :: "nat \<Rightarrow> int \<Rightarrow> nat" where
  "loopCount vertices_count count =
     (let count' = (if real vertices_count < real_of_int count
                    then real vertices_count / 2 else real_of_int count)
      in nat \<lceil>count'\<rceil>)"

definition collapse :: "int \<Rightarrow> VerticesAndFaces \<Rightarrow> error + VerticesAndFaces" where
  "collapse count s = collapseLoop (loopCount (length (arrVertices s)) count) s"

section \<open>Curve builder: the sampling interval\<close>



subsection \<open>Populate, then collapse\<close>

text \<open>
  \<open>GeometryModifier.modify\<close> populates the graph from the geometry and then collapses
  \<open>count\<close> vertices (building the output geometry reads the graph and changes nothing).
\<close>

definition modify :: "Vector3 list \<Rightarrow> (nat \<times> nat \<times> nat) list \<Rightarrow> int \<Rightarrow> error + VerticesAndFaces" where
  "modify positions triangles count =
     (case populateFromGeometry positions triangles of
        Inl e \<Rightarrow> Inl e
      | Inr s \<Rightarrow> collapse count s)"

text \<open>The stored collapse costs in the order of \<open>arrVerticesByCost\<close>.\<close>

definition costsInOrder :: "VerticesAndFaces \<Rightarrow> real list" where
  "costsInOrder s = map (\<lambda>i. collapseCost (vertexOf s (arrVertices s ! i))) (arrVerticesByCost s)"

text \<open>The hash a face would get from \<open>computeHash\<close> now.\<close>

definition currentHash :: "VerticesAndFaces \<Rightarrow> nat \<Rightarrow> string" where
  "currentHash s t = hash (faceOf (computeHash t s) t)"

section \<open>Example meshes\<close>

text \<open>A single right triangle with sides 3, 4 and 5, before the costs are computed.\<close>

definition oneTriangle :: VerticesAndFaces where
  "oneTriangle = newTriangle 0 0 1 2 (emptyMesh [Vector3 0 0 0, Vector3 3 0 0, Vector3 0 4 0])"

text \<open>
  Three triangles around vertex 0 on the corners of a 3 by 4 rectangle: every edge has
  length 3, 4 or 5.
\<close>

definition fanPositions :: "Vector3 list" where
  "fanPositions = [Vector3 0 0 0, Vector3 3 4 0, Vector3 3 0 0, Vector3 0 4 0]"

definition fanTriangles :: "(nat \<times> nat \<times> nat) list" where
  "fanTriangles = [(0, 1, 2), (0, 1, 3), (0, 2, 3)]"

text \<open>The graph populated from the fan (the empty graph stands in for a failed populate).\<close>

definition fanMesh :: VerticesAndFaces where
  "fanMesh = (case populateFromGeometry fanPositions fanTriangles of
                Inr s \<Rightarrow> s | Inl e \<Rightarrow> emptyMesh [])"

text \<open>Two vertices and one triangle that names the second vertex twice.\<close>

definition pairPositions :: "Vector3 list" where
  "pairPositions = [Vector3 0 0 0, Vector3 1 0 0]"

definition pairTriangles :: "(nat \<times> nat \<times> nat) list" where
  "pairTriangles = [(0, 1, 1)]"

text \<open>Four vertices, a proper triangle and a triangle that names vertex 3 twice.\<close>

definition flagPositions :: "Vector3 list" where
  "flagPositions = [Vector3 0 0 0, Vector3 3 0 0, Vector3 3 4 0, Vector3 0 4 0]"

definition flagTriangles :: "(nat \<times> nat \<times> nat) list" where
  "flagTriangles = [(0, 1, 2), (0, 3, 3)]"

text \<open>Five vertices, a proper triangle and, apart from it, a triangle that names vertex 4 twice.\<close>

definition kitePositions :: "Vector3 list" where
  "kitePositions = [Vector3 0 0 0, Vector3 3 0 0, Vector3 0 4 0, Vector3 20 0 0, Vector3 20 20 0]"

definition kiteTriangles :: "(nat \<times> nat \<times> nat) list" where
  "kiteTriangles = [(0, 1, 2), (3, 4, 4)]"

text \<open>
  Three triangles around vertex 0 in the three coordinate planes, before the costs are
  computed: the edges at vertex 0 have the lengths 3, 4 and 4.
\<close>

definition cornerMesh :: VerticesAndFaces where
  "cornerMesh =
     newTriangle 2 0 2 3 (newTriangle 1 0 1 3 (newTriangle 0 0 1 2
       (emptyMesh [Vector3 0 0 0, Vector3 3 0 0, Vector3 0 4 0, Vector3 0 0 4])))"

text \<open>
  Two coplanar triangles around vertex 0 in the plane x = y, with the normals as the
  program holds them. For both triangles the cross product in \<open>computeNormal\<close> is
  (3, -3, 0); \<open>normalize\<close> multiplies it by the rounded reciprocal of the rounded square
  root of 18, which gives the components 0.7071067811865476, -0.7071067811865476 and 0.
  That double is above the square root of 1/2.
\<close>

definition doubleNormal :: Vector3 where
  "doubleNormal = Vector3 (6369051672525773 / 2 ^ 53) (- (6369051672525773 / 2 ^ 53)) 0"

definition tiltedFan :: VerticesAndFaces where
  "tiltedFan =
     updFace 1 (\<lambda>r. r\<lparr>normal := doubleNormal\<rparr>) (updFace 0 (\<lambda>r. r\<lparr>normal := doubleNormal\<rparr>)
       (newTriangle 1 0 2 3 (newTriangle 0 0 1 2
         (emptyMesh [Vector3 0 0 0, Vector3 3 3 0, Vector3 0 0 1, Vector3 (- 3) (- 3) 0]))))"


section \<open>The path search\<close>

text \<open>
  The search reads the graph (\<open>data.faces\<close> is \<open>arrFaces\<close>, \<open>data.facesCount\<close> its
  length) and changes only the \<open>degree\<close> of faces. The \<open>SearchProcess\<close> object itself
  keeps the previous point, the previous travel vector and the shortest edge seen.
\<close>

record SearchProcess =
  previousPoint :: "Vector3 option"
  previousVector :: "Vector3 option"
  shortestEdge :: jsnumber

text \<open>The constructor: no previous point, no previous vector, shortest edge \<open>Infinity\<close>.\<close>

definition newSearchProcess :: SearchProcess where
  "newSearchProcess = \<lparr>previousPoint = None, previousVector = None, shortestEdge = Infinity\<rparr>"

definition resetPreviousPoint :: "SearchProcess \<Rightarrow> SearchProcess" where
  "resetPreviousPoint sp = sp\<lparr>previousPoint := None, previousVector := None\<rparr>"

fun lessThanJs :: "real \<Rightarrow> jsnumber \<Rightarrow> bool" where
  "lessThanJs d (Finite e) = (d < e)"
| "lessThanJs d Infinity = True"

text \<open>
  A JavaScript \<open>Set\<close> built from an array keeps the first occurrence of every element,
  in order.
\<close>

definition setOrder :: "'a list \<Rightarrow> 'a list" where
  "setOrder xs = fold (\<lambda>x acc. if x \<in> set acc then acc else acc @ [x]) xs []"

text \<open>The \<open>neighbors\<close> getter of a triangle: the faces of its three vertices, without itself.\<close>

definition Triangle_neighbors :: "VerticesAndFaces \<Rightarrow> nat \<Rightarrow> nat list" where
  "Triangle_neighbors s t =
     removeAll t (setOrder (faces (vertexOf s (v1 (faceOf s t))) @
                            faces (vertexOf s (v2 (faceOf s t))) @
                            faces (vertexOf s (v3 (faceOf s t)))))"

definition incrementDegree :: "nat \<Rightarrow> VerticesAndFaces \<Rightarrow> VerticesAndFaces" where
  "incrementDegree t s = updFace t (\<lambda>r. r\<lparr>degree := degree r + 1\<rparr>) s"

subsection \<open>Point extraction\<close>

definition blendPoint :: "Vector3 \<Rightarrow> Vector3 \<Rightarrow> Vector3 \<Rightarrow> Vector3 \<Rightarrow> real \<Rightarrow> real \<Rightarrow> real \<Rightarrow> Vector3" where
  "blendPoint a b c faceCenter k_a k_b k_c =
     (if min k_a (min k_b k_c) > 0 then
        addVectors (addVectors (multiplyScalar a (k_a / (k_a + k_b + k_c)))
                               (multiplyScalar b (k_b / (k_a + k_b + k_c))))
                   (multiplyScalar c (k_c / (k_a + k_b + k_c)))
      else if k_a > k_b \<and> k_a > k_c then multiplyScalar (addVectors a faceCenter) 0.5
      else if k_b > k_c then multiplyScalar (addVectors b faceCenter) 0.5
      else multiplyScalar (addVectors c faceCenter) 0.5)"

definition getNextPoint :: "SearchProcess \<Rightarrow> VerticesAndFaces \<Rightarrow> nat \<Rightarrow> Vector3 \<times> SearchProcess" where
  "getNextPoint sp s face =
     (case previousPoint sp of
        None \<Rightarrow> (center (faceOf s face), sp\<lparr>previousPoint := Some (center (faceOf s face))\<rparr>)
      | Some prevPoint \<Rightarrow>
          (case previousVector sp of
             None \<Rightarrow>
               (center (faceOf s face),
                sp\<lparr>previousVector := Some (subVectors (center (faceOf s face)) prevPoint),
                   previousPoint := Some (center (faceOf s face))\<rparr>)
           | Some prevVector \<Rightarrow>
               (let a = position (vertexOf s (v1 (faceOf s face)));
                    b = position (vertexOf s (v2 (faceOf s face)));
                    c = position (vertexOf s (v3 (faceOf s face)));
                    newPoint = blendPoint a b c (center (faceOf s face))
                                 (dot (subVectors a prevPoint) prevVector)
                                 (dot (subVectors b prevPoint) prevVector)
                                 (dot (subVectors c prevPoint) prevVector);
                    distance = lengthV (subVectors newPoint prevPoint)
                in (newPoint,
                    sp\<lparr>previousVector := Some (subVectors newPoint prevPoint),
                       shortestEdge := (if lessThanJs distance (shortestEdge sp)
                                        then Finite distance else shortestEdge sp),
                       previousPoint := Some newPoint\<rparr>))))"

subsection \<open>Sequential walk\<close>

text \<open>
  The state of the loop of \<open>sequentialWalk\<close>: the finished paths, the current path, the
  search process and the previous face.
\<close>

definition isConnected :: "VerticesAndFaces \<Rightarrow> nat \<Rightarrow> nat \<Rightarrow> bool" where
  "isConnected s face prevFace =
     list_ex (\<lambda>neighbor. hash (faceOf s neighbor) = hash (faceOf s prevFace))
             (Triangle_neighbors s face)"

fun walkFaces :: "VerticesAndFaces \<Rightarrow> nat list \<Rightarrow>
      Vector3 list list \<times> Vector3 list \<times> SearchProcess \<times> nat option \<Rightarrow>
      Vector3 list list \<times> Vector3 list \<times> SearchProcess \<times> nat option" where
  "walkFaces s [] st = st"
| "walkFaces s (face # rest) (paths, path, sp, prev) =
     walkFaces s rest
       (case prev of
          None \<Rightarrow> (case getNextPoint sp s face of
                      (p, sp1) \<Rightarrow> (paths, path @ [p], sp1, Some face))
        | Some prevFace \<Rightarrow>
            if isConnected s face prevFace
            then (case getNextPoint sp s face of
                    (p, sp1) \<Rightarrow> (paths, path @ [p], sp1, Some face))
            else (case getNextPoint (resetPreviousPoint sp) s face of
                    (p, sp1) \<Rightarrow>
                      ((if length path > 1 then paths @ [path] else paths),
                       [p], sp1\<lparr>previousPoint := Some p\<rparr>, Some face)))"

definition sequentialWalk :: "SearchProcess \<Rightarrow> VerticesAndFaces \<Rightarrow> Vector3 list list \<times> SearchProcess" where
  "sequentialWalk sp s =
     (case walkFaces s (arrFaces s) ([], [], resetPreviousPoint sp, None) of
        (paths, path, sp1, prev) \<Rightarrow> ((if length path > 1 then paths @ [path] else paths), sp1))"

subsection \<open>Nearest neighbour\<close>

text \<open>
  \<open>getNearestNeighbor\<close>. Without a previous vector the best neighbour is the unused one
  whose normal has the largest positive dot product with the face normal. With one, the
  variable \<open>cost\<close> is declared inside the loop, so every unused neighbour whose cost is
  below 1 replaces the best one. The chosen neighbour has its degree incremented.
\<close>

definition bestByNormal :: "VerticesAndFaces \<Rightarrow> nat \<Rightarrow> nat list \<Rightarrow> nat option" where
  "bestByNormal s face ns =
     snd (fold (\<lambda>neighbor (cost, best).
                  if degree (faceOf s neighbor) < 1 \<and>
                     dot (normal (faceOf s face)) (normal (faceOf s neighbor)) > cost
                  then (dot (normal (faceOf s face)) (normal (faceOf s neighbor)), Some neighbor)
                  else (cost, best))
               ns (0, None))"

definition bestByDirection :: "VerticesAndFaces \<Rightarrow> Vector3 \<Rightarrow> nat \<Rightarrow> nat list \<Rightarrow> nat option" where
  "bestByDirection s prevVector face ns =
     fold (\<lambda>neighbor best.
             if degree (faceOf s neighbor) < 1 \<and>
                1 - dot (normalizeV prevVector)
                        (normalizeV (subVectors (center (faceOf s neighbor)) (center (faceOf s face)))) < 1
             then Some neighbor else best)
          ns None"

definition getNearestNeighbor :: "SearchProcess \<Rightarrow> VerticesAndFaces \<Rightarrow> nat \<Rightarrow> nat option \<times> VerticesAndFaces" where
  "getNearestNeighbor sp s face =
     (if Triangle_neighbors s face = [] then (None, s)
      else
        (case (case previousVector sp of
                 None \<Rightarrow> bestByNormal s face (Triangle_neighbors s face)
               | Some prevVector \<Rightarrow> bestByDirection s prevVector face (Triangle_neighbors s face)) of
           None \<Rightarrow> (None, s)
         | Some bestNeighbor \<Rightarrow> (Some bestNeighbor, incrementDegree bestNeighbor s)))"

text \<open>
  The two inner loops of \<open>nearestNeighborSearch\<close> grow the path from the current face:
  forward with \<open>push\<close>, backward with \<open>unshift\<close>.
\<close>

definition growStep ::
    "bool \<Rightarrow> nat \<Rightarrow> SearchProcess \<times> VerticesAndFaces \<times> nat \<times> Vector3 list \<Rightarrow>
     nat option \<times> SearchProcess \<times> VerticesAndFaces \<times> nat \<times> Vector3 list" where
  "growStep forward face st =
     (case st of (sp, s, selectedCount, path) \<Rightarrow>
        (case getNextPoint sp (incrementDegree face s) face of
           (p, sp1) \<Rightarrow>
             (case getNearestNeighbor sp1 (incrementDegree face s) face of
                (next, s1) \<Rightarrow>
                  (next, sp1, s1, selectedCount + 1, (if forward then path @ [p] else p # path)))))"

partial_function (option) growPath ::
    "bool \<Rightarrow> nat option \<Rightarrow> SearchProcess \<times> VerticesAndFaces \<times> nat \<times> Vector3 list \<Rightarrow>
     (SearchProcess \<times> VerticesAndFaces \<times> nat \<times> Vector3 list) option" where
  "growPath forward currentFace st =
     (case currentFace of
        None \<Rightarrow> Some st
      | Some face \<Rightarrow> growPath forward (fst (growStep forward face st)) (snd (growStep forward face st)))"

definition getStartFace :: "VerticesAndFaces \<Rightarrow> nat option" where
  "getStartFace s = find (\<lambda>face. degree (faceOf s face) = 0) (arrFaces s)"

text \<open>
  One round of the outer loop: the path is grown forward from the start face, then
  backward from it, and kept when it has more than one point.
\<close>

definition searchRound ::
    "nat \<Rightarrow> SearchProcess \<times> VerticesAndFaces \<times> nat \<times> Vector3 list list \<Rightarrow>
     (SearchProcess \<times> VerticesAndFaces \<times> nat \<times> Vector3 list list) option" where
  "searchRound startFace st =
     (case st of (sp, s, selectedCount, paths) \<Rightarrow>
        (case growPath True (Some startFace) (resetPreviousPoint sp, s, selectedCount, []) of
           None \<Rightarrow> None
         | Some (sp1, s1, count1, path1) \<Rightarrow>
             (case getNextPoint (resetPreviousPoint sp1) s1 startFace of
                (p, sp2) \<Rightarrow>
                  (case getNearestNeighbor sp2 s1 startFace of
                     (next, s2) \<Rightarrow>
                       (case growPath False next (sp2, s2, count1, path1) of
                          None \<Rightarrow> None
                        | Some (sp3, s3, count3, path3) \<Rightarrow>
                            Some (sp3, s3, count3,
                                  (if length path3 > 1 then paths @ [path3] else paths)))))))"

partial_function (option) searchLoop ::
    "nat option \<Rightarrow> SearchProcess \<times> VerticesAndFaces \<times> nat \<times> Vector3 list list \<Rightarrow>
     (Vector3 list list \<times> SearchProcess \<times> VerticesAndFaces) option" where
  "searchLoop currentFace st =
     (case st of (sp, s, selectedCount, paths) \<Rightarrow>
        (case currentFace of
           None \<Rightarrow> Some (paths, sp, s)
         | Some startFace \<Rightarrow>
             if selectedCount < length (arrFaces s) then
               (case searchRound startFace st of
                  None \<Rightarrow> None
                | Some st1 \<Rightarrow> searchLoop (getStartFace (fst (snd st1))) st1)
             else Some (paths, sp, s)))"

definition nearestNeighborSearch ::
    "SearchProcess \<Rightarrow> VerticesAndFaces \<Rightarrow> (Vector3 list list \<times> SearchProcess \<times> VerticesAndFaces) option" where
  "nearestNeighborSearch sp s =
     (if length (arrFaces s) < 2 then Some ([], sp, s)
      else searchLoop (Some (arrFaces s ! 0)) (sp, s, 0, []))"

subsection \<open>Wrapping path search\<close>

definition getUnconnectedNeighbors :: "VerticesAndFaces \<Rightarrow> nat list \<Rightarrow> nat list" where
  "getUnconnectedNeighbors s searchNeighbors =
     setOrder (filter (\<lambda>candidate. degree (faceOf s candidate) = 0)
                      (concat (map (Triangle_neighbors s) searchNeighbors)))"

text \<open>
  \<open>removeNearestNeighbor\<close>: the position of the first candidate, among those that are
  neighbours of the face, whose centre is nearest to the centre of the face.
\<close>

definition nearestIndex :: "VerticesAndFaces \<Rightarrow> nat \<Rightarrow> nat list \<Rightarrow> nat option" where
  "nearestIndex s face ns =
     snd (fold (\<lambda>i (distanceSqrd, found).
                  if ns ! i \<in> set (Triangle_neighbors s face) \<and>
                     lessThanJs (distanceToSquared (center (faceOf s face)) (center (faceOf s (ns ! i))))
                                distanceSqrd
                  then (Finite (distanceToSquared (center (faceOf s face)) (center (faceOf s (ns ! i)))),
                        Some i)
                  else (distanceSqrd, found))
               [0 ..< length ns] (Infinity, None))"

definition differenceArray :: "nat list \<Rightarrow> nat list \<Rightarrow> nat list" where
  "differenceArray A B = fold (\<lambda>b A'. removeFound (indexOf A' b) A') B A"

lemma nearestIndex_fold_less:
  "snd acc = None \<or> (\<exists>i. snd acc = Some i \<and> i < n) \<Longrightarrow> set js \<subseteq> {..< n} \<Longrightarrow>
   snd (fold (\<lambda>i (distanceSqrd, found). if P i distanceSqrd then (F i, Some i) else (distanceSqrd, found))
          js acc) = Some k \<Longrightarrow> k < n"
proof (induction js arbitrary: acc)
  case Nil
  then show ?case by auto
next
  case (Cons j js)
  obtain d f where acc: "acc = (d, f)" by (cases acc)
  show ?case
  proof (rule Cons.IH [of "if P j d then (F j, Some j) else (d, f)"])
    show "snd (if P j d then (F j, Some j) else (d, f)) = None \<or>
        (\<exists>i. snd (if P j d then (F j, Some j) else (d, f)) = Some i \<and> i < n)"
      using Cons.prems(1,2) acc by auto
    show "set js \<subseteq> {..< n}" using Cons.prems(2) by simp
    show "snd (fold (\<lambda>i (distanceSqrd, found). if P i distanceSqrd then (F i, Some i) else (distanceSqrd, found))
          js (if P j d then (F j, Some j) else (d, f))) = Some k"
      using Cons.prems(3) acc by simp
  qed
qed

lemma nearestIndex_less: "nearestIndex s face ns = Some i \<Longrightarrow> i < length ns"
  unfolding nearestIndex_def
  by (rule nearestIndex_fold_less [where acc = "(Infinity, None)" and js = "[0 ..< length ns]"]) auto

text \<open>
  The inner loop of \<open>findPathFromFace\<close> takes the nearest candidate as long as one is
  adjacent to the current face; the candidates left over leave the active list.
\<close>

function consumeNeighbors ::
    "VerticesAndFaces \<Rightarrow> nat list \<times> nat \<times> nat list \<times> nat list \<Rightarrow>
     VerticesAndFaces \<times> nat list \<times> nat \<times> nat list" where
  "consumeNeighbors s (path, currentFace, activeNeighbors, currentNeighbors) =
     (if currentNeighbors = [] then (s, path, currentFace, activeNeighbors)
      else
        (case nearestIndex s currentFace currentNeighbors of
           Some i \<Rightarrow>
             consumeNeighbors (incrementDegree (currentNeighbors ! i) s)
               (path @ [currentNeighbors ! i], currentNeighbors ! i, activeNeighbors,
                splice1 i currentNeighbors)
         | None \<Rightarrow>
             consumeNeighbors s
               (path, currentFace, differenceArray activeNeighbors currentNeighbors, [])))"
  by pat_completeness auto
termination
proof (relation "measure (\<lambda>(s, path, currentFace, activeNeighbors, currentNeighbors). length currentNeighbors)")
  show "wf (measure (\<lambda>(s, path, currentFace, activeNeighbors, currentNeighbors). length currentNeighbors))"
    by simp
next
  fix s :: VerticesAndFaces and path currentFace activeNeighbors and currentNeighbors :: "nat list" and i
  assume "currentNeighbors \<noteq> []" "nearestIndex s currentFace currentNeighbors = Some i"
  then have "i < length currentNeighbors" by (intro nearestIndex_less)
  then show "((incrementDegree (currentNeighbors ! i) s,
       path @ [currentNeighbors ! i], currentNeighbors ! i, activeNeighbors, splice1 i currentNeighbors),
      s, path, currentFace, activeNeighbors, currentNeighbors)
     \<in> measure (\<lambda>(s, path, currentFace, activeNeighbors, currentNeighbors). length currentNeighbors)"
    by (simp add: splice1_def)
next
  fix s :: VerticesAndFaces and path currentFace activeNeighbors and currentNeighbors :: "nat list"
  assume "currentNeighbors \<noteq> []"
  then show "((s, path, currentFace, differenceArray activeNeighbors currentNeighbors, []),
      s, path, currentFace, activeNeighbors, currentNeighbors)
     \<in> measure (\<lambda>(s, path, currentFace, activeNeighbors, currentNeighbors). length currentNeighbors)"
    by simp
qed

declare consumeNeighbors.simps [simp del]

definition frontierRound ::
    "VerticesAndFaces \<Rightarrow> nat list \<times> nat \<times> nat list \<Rightarrow> VerticesAndFaces \<times> nat list \<times> nat \<times> nat list" where
  "frontierRound s st =
     (case st of (path, currentFace, activeNeighbors) \<Rightarrow>
        consumeNeighbors s (path, currentFace,
          getUnconnectedNeighbors s activeNeighbors,
          getUnconnectedNeighbors s activeNeighbors))"

partial_function (option) expandFrontier ::
    "VerticesAndFaces \<Rightarrow> nat list \<times> nat \<times> nat list \<Rightarrow> (nat list \<times> VerticesAndFaces) option" where
  "expandFrontier s st =
     (if snd (snd st) = [] then Some (fst st, s)
      else expandFrontier (fst (frontierRound s st)) (snd (frontierRound s st)))"

definition findPathFromFace :: "VerticesAndFaces \<Rightarrow> nat \<Rightarrow> (nat list \<times> VerticesAndFaces) option" where
  "findPathFromFace s startFace =
     expandFrontier (incrementDegree startFace s) ([startFace], startFace, [startFace])"

text \<open>
  \<open>getNextFace\<close> scans the faces after \<open>previousIndex\<close> for one of degree 0; the
  argument is \<open>previousIndex + 1\<close>.
\<close>

definition getNextFace :: "VerticesAndFaces \<Rightarrow> nat list \<Rightarrow> nat \<Rightarrow> nat option" where
  "getNextFace s fs start = find (\<lambda>i. degree (faceOf s (fs ! i)) = 0) [start ..< length fs]"

fun pointsOf :: "VerticesAndFaces \<Rightarrow> nat list \<Rightarrow> SearchProcess \<times> Vector3 list \<Rightarrow> SearchProcess \<times> Vector3 list" where
  "pointsOf s [] acc = acc"
| "pointsOf s (face # rest) (sp, pointPath) =
     (case getNextPoint sp s face of (p, sp1) \<Rightarrow> pointsOf s rest (sp1, pointPath @ [p]))"

definition wrapRound ::
    "nat list \<Rightarrow> nat \<Rightarrow> SearchProcess \<times> VerticesAndFaces \<times> Vector3 list list \<Rightarrow>
     (SearchProcess \<times> VerticesAndFaces \<times> Vector3 list list) option" where
  "wrapRound fs i st =
     (case st of (sp, s, pointPaths) \<Rightarrow>
        (case findPathFromFace s (fs ! i) of
           None \<Rightarrow> None
         | Some (facePath, s1) \<Rightarrow>
             (case pointsOf s1 facePath (resetPreviousPoint sp, []) of
                (sp1, pointPath) \<Rightarrow> Some (sp1, s1, pointPaths @ [pointPath]))))"

partial_function (option) wrapLoop ::
    "nat list \<Rightarrow> nat option \<Rightarrow> SearchProcess \<times> VerticesAndFaces \<times> Vector3 list list \<Rightarrow>
     (Vector3 list list \<times> SearchProcess \<times> VerticesAndFaces) option" where
  "wrapLoop fs nextFace st =
     (case nextFace of
        None \<Rightarrow> Some (snd (snd st), fst st, fst (snd st))
      | Some i \<Rightarrow>
          (case wrapRound fs i st of
             None \<Rightarrow> None
           | Some st1 \<Rightarrow> wrapLoop fs (getNextFace (fst (snd st1)) fs (i + 1)) st1))"

definition WrappingPathSearch ::
    "SearchProcess \<Rightarrow> VerticesAndFaces \<Rightarrow> (Vector3 list list \<times> SearchProcess \<times> VerticesAndFaces) option" where
  "WrappingPathSearch sp s = wrapLoop (arrFaces s) (getNextFace s (arrFaces s) 0) (sp, s, [])"


section \<open>Predicates and helpers of the statements\<close>

text \<open>
  A face has three corners when its vertex references are mutually distinct; a graph is
  indexed when every vertex of \<open>arrVertices\<close> stores its own position; a face is off
  the edge \<open>uv\<close> unless it is in \<open>arrFaces\<close> and contains both \<open>u\<close> and \<open>v\<close>.
\<close>

definition removeIf :: "bool \<Rightarrow> 'a \<Rightarrow> 'a list \<Rightarrow> 'a list" where
  "removeIf p f xs = (if p then remove1 f xs else xs)"

definition offEdge :: "VerticesAndFaces \<Rightarrow> nat \<Rightarrow> nat \<Rightarrow> nat \<Rightarrow> bool" where
  "offEdge s u v t \<longleftrightarrow>
     \<not> (t \<in> set (arrFaces s) \<and> hasVertex (faceOf s t) u \<and> hasVertex (faceOf s t) v)"

definition setIndex :: "nat \<Rightarrow> VerticesAndFaces \<Rightarrow> VerticesAndFaces" where
  "setIndex i s = updVertex (arrVertices s ! i) (\<lambda>r. r\<lparr>index := i\<rparr>) s"

definition indexed :: "VerticesAndFaces \<Rightarrow> bool" where
  "indexed s \<longleftrightarrow> (\<forall>i < length (arrVertices s). index (vertexOf s (arrVertices s ! i)) = i)"

definition threeCorners :: "Triangle \<Rightarrow> bool" where
  "threeCorners t \<longleftrightarrow> v1 t \<noteq> v2 t \<and> v2 t \<noteq> v3 t \<and> v1 t \<noteq> v3 t"

text \<open>
  For the searches: a graph lists its neighbours when every neighbour of a face of
  \<open>arrFaces\<close> is itself in \<open>arrFaces\<close>; it is untouched when every face has degree 0,
  covered when every face has degree at least 1. The unused faces are those of degree 0;
  a current face whose degree was already raised by \<open>getNearestNeighbor\<close> is pending;
  a graph grows when only degrees change, and only upwards.
\<close>

definition neighborsListed :: "VerticesAndFaces \<Rightarrow> bool" where
  "neighborsListed s \<longleftrightarrow>
     list_all (\<lambda>t. list_all (\<lambda>n. n \<in> set (arrFaces s)) (Triangle_neighbors s t)) (arrFaces s)"

definition untouched :: "VerticesAndFaces \<Rightarrow> bool" where
  "untouched s \<longleftrightarrow> list_all (\<lambda>t. degree (faceOf s t) = 0) (arrFaces s)"

definition covered :: "VerticesAndFaces \<Rightarrow> bool" where
  "covered s \<longleftrightarrow> list_all (\<lambda>t. 1 \<le> degree (faceOf s t)) (arrFaces s)"

definition unused :: "VerticesAndFaces \<Rightarrow> nat set" where
  "unused s = {t \<in> set (arrFaces s). degree (faceOf s t) = 0}"

definition pending :: "VerticesAndFaces \<Rightarrow> nat option \<Rightarrow> nat" where
  "pending s currentFace =
     (case currentFace of None \<Rightarrow> 0 | Some f \<Rightarrow> if degree (faceOf s f) = 0 then 0 else 1)"

definition grows :: "VerticesAndFaces \<Rightarrow> VerticesAndFaces \<Rightarrow> bool" where
  "grows s s' \<longleftrightarrow>
     arrFaces s' = arrFaces s \<and> vertexOf s' = vertexOf s \<and>
     (\<forall>t. v1 (faceOf s' t) = v1 (faceOf s t) \<and> v2 (faceOf s' t) = v2 (faceOf s t) \<and>
          v3 (faceOf s' t) = v3 (faceOf s t) \<and> degree (faceOf s t) \<le> degree (faceOf s' t))"

section \<open>Rounding to a double\<close>

lemma pow2_powr: "pow2 e = 2 powr (real_of_int e)"
  by (simp add: pow2_def powr_real_of_int inverse_eq_divide)

lemma pow2_pos [simp]: "0 < pow2 e"
  by (simp add: pow2_powr)

lemma pow2_nonzero [simp]: "pow2 e \<noteq> 0"
  by (simp add: pow2_powr)

lemma pow2_nonneg [simp]: "0 \<le> pow2 e"
  by (simp add: pow2_powr)

lemma pow2_abs [simp]: "\<bar>pow2 e\<bar> = pow2 e"
  using pow2_pos [of e] by (simp only: abs_of_pos)

lemma pow2_add: "pow2 (a + b) = pow2 a * pow2 b"
  by (simp add: pow2_powr powr_add)

lemma pow2_nat: "pow2 (int n) = 2 ^ n"
  by (simp add: pow2_def)

lemma pow2_neg_nat: "pow2 (- int n) = 1 / 2 ^ n"
  by (simp add: pow2_powr powr_minus powr_realpow inverse_eq_divide)

lemma pow2_mono: "a \<le> b \<Longrightarrow> pow2 a \<le> pow2 b"
  by (simp add: pow2_powr)

lemma pow2_less_iff: "pow2 a < pow2 b \<longleftrightarrow> a < b"
  by (simp add: pow2_powr)

lemma halvings_bounds:
  "1 \<le> x \<Longrightarrow> x < 2 ^ Suc n \<Longrightarrow> 2 ^ halvings n x \<le> x \<and> x < 2 ^ Suc (halvings n x)"
proof (induction n arbitrary: x)
  case 0
  then show ?case by simp
next
  case (Suc n)
  show ?case
  proof (cases "2 \<le> x")
    case True
    with Suc.prems have "1 \<le> x / 2" "x / 2 < 2 ^ Suc n" by simp_all
    from Suc.IH [OF this] True show ?thesis by simp
  next
    case False
    with Suc.prems show ?thesis by simp
  qed
qed

lemma halvings_le: "halvings n x \<le> n"
  by (induction n arbitrary: x) auto


lemma doublings_bounds:
  "0 < x \<Longrightarrow> x < 1 \<Longrightarrow> 1 \<le> x * 2 ^ n \<Longrightarrow>
   1 \<le> x * 2 ^ doublings n x \<and> x * 2 ^ doublings n x < 2"
proof (induction n arbitrary: x)
  case 0
  then show ?case by simp
next
  case (Suc n)
  show ?case
  proof (cases "2 * x < 1")
    case True
    from Suc.prems have "0 < 2 * x" "1 \<le> 2 * x * 2 ^ n" by (simp_all add: mult.assoc mult.left_commute)
    from Suc.IH [OF this(1) True this(2)] Suc.prems(2) show ?thesis
      by (simp add: mult.assoc mult.left_commute)
  next
    case False
    then have "doublings n (2 * x) = 0" by (cases n) simp_all
    with False Suc.prems show ?thesis by simp
  qed
qed

lemma doublings_le: "doublings n x \<le> n"
  by (induction n arbitrary: x) auto

lemma exponent_range: "- 1022 \<le> exponent x \<and> exponent x \<le> 1023"
  using halvings_le [of 1023 "\<bar>x\<bar>"] doublings_le [of 1022 "\<bar>x\<bar>"]
  by (simp add: exponent_def)

lemma exponent_bounds:
  assumes lo: "pow2 (- 1022) \<le> \<bar>x\<bar>" and hi: "\<bar>x\<bar> < pow2 1024"
  shows "pow2 (exponent x) \<le> \<bar>x\<bar> \<and> \<bar>x\<bar> < pow2 (exponent x + 1)"
proof (cases "1 \<le> \<bar>x\<bar>")
  case True
  from hi have "\<bar>x\<bar> < 2 ^ Suc 1023" using pow2_nat [of 1024] by simp
  from halvings_bounds [OF True this]
  have "2 ^ halvings 1023 \<bar>x\<bar> \<le> \<bar>x\<bar>" "\<bar>x\<bar> < 2 ^ Suc (halvings 1023 \<bar>x\<bar>)" by blast+
  moreover have "pow2 (int (halvings 1023 \<bar>x\<bar>) + 1) = 2 ^ Suc (halvings 1023 \<bar>x\<bar>)"
    using pow2_nat [of "Suc (halvings 1023 \<bar>x\<bar>)"] by (simp add: add.commute)
  ultimately show ?thesis using True by (simp add: exponent_def pow2_nat)
next
  case False
  then have lt: "\<bar>x\<bar> < 1" by simp
  from lo have pos: "0 < \<bar>x\<bar>" using pow2_pos [of "- 1022"] by linarith
  from lo have "1 / 2 ^ 1022 \<le> \<bar>x\<bar>" using pow2_neg_nat [of 1022] by simp
  then have "1 \<le> \<bar>x\<bar> * 2 ^ 1022" by (simp add: field_simps)
  from doublings_bounds [OF pos lt this]
  have b: "1 \<le> \<bar>x\<bar> * 2 ^ doublings 1022 \<bar>x\<bar>" "\<bar>x\<bar> * 2 ^ doublings 1022 \<bar>x\<bar> < 2" by blast+
  let ?d = "doublings 1022 \<bar>x\<bar>"
  have e: "exponent x = - int ?d" using False by (simp add: exponent_def)
  have p: "pow2 (- int ?d) = 1 / 2 ^ ?d" by (rule pow2_neg_nat)
  have "pow2 (- int ?d + 1) = pow2 (- int ?d) * pow2 1" by (rule pow2_add)
  then have p1: "pow2 (- int ?d + 1) = 2 / 2 ^ ?d" using p by (simp add: pow2_def)
  from b(1) have "1 / 2 ^ ?d \<le> \<bar>x\<bar>" by (simp add: field_simps)
  moreover from b(2) have "\<bar>x\<bar> < 2 / 2 ^ ?d" by (simp add: field_simps)
  ultimately show ?thesis using e p p1 by simp
qed

lemma exponent_eq:
  assumes "pow2 e \<le> \<bar>x\<bar>" and "\<bar>x\<bar> < pow2 (e + 1)" and "- 1022 \<le> e" and "e \<le> 1023"
  shows "exponent x = e"
proof -
  from assms(1,3) have lo: "pow2 (- 1022) \<le> \<bar>x\<bar>" using pow2_mono [of "- 1022" e] by linarith
  from assms(2,4) have hi: "\<bar>x\<bar> < pow2 1024" using pow2_mono [of "e + 1" 1024] by linarith
  from exponent_bounds [OF lo hi]
  have b: "pow2 (exponent x) \<le> \<bar>x\<bar>" "\<bar>x\<bar> < pow2 (exponent x + 1)" by blast+
  from b(1) assms(2) have "pow2 (exponent x) < pow2 (e + 1)" by linarith
  then have "exponent x < e + 1" by (simp add: pow2_less_iff)
  moreover from assms(1) b(2) have "pow2 e < pow2 (exponent x + 1)" by linarith
  then have "e < exponent x + 1" by (simp add: pow2_less_iff)
  ultimately show ?thesis by linarith
qed

lemma toDouble_at:
  assumes "pow2 e \<le> \<bar>x\<bar>" and "\<bar>x\<bar> < pow2 (e + 1)" and "- 1022 \<le> e" and "e \<le> 1023"
  shows "toDouble x = of_int (roundTiesToEven (x / pow2 (e - 52))) * pow2 (e - 52)"
  using exponent_eq [OF assms] by (simp add: toDouble_def)







section \<open>Properties of the sampling interval\<close>














section \<open>Properties of the collapse cost\<close>

lemma fold_max_Max:
  "fold (\<lambda>t c. max c (g t)) xs (a::real) = Max (insert a (g ` set xs))"
proof (induction xs arbitrary: a)
  case Nil
  then show ?case by simp
next
  case (Cons x xs)
  have "Max (insert (max a (g x)) (g ` set xs)) = Max (insert a (insert (g x) (g ` set xs)))"
  proof (cases "set xs = {}")
    case True
    then show ?thesis by simp
  next
    case False
    then show ?thesis by (simp add: max.assoc)
  qed
  with Cons show ?case by simp
qed

lemma lagrange_identity:
  "dot a b * dot a b + dot (cross a b) (cross a b) = dot a a * dot b b"
  by (simp add: dot_def cross_def algebra_simps)

lemma dot_self_nonneg: "0 \<le> dot a a"
  by (simp add: dot_def)

lemma cauchy_schwarz_sq: "dot a b * dot a b \<le> dot a a * dot b b"
  using lagrange_identity [of a b] dot_self_nonneg [of "cross a b"] by linarith

lemma lengthV_dot: "lengthV a = sqrt (dot a a)"
  by (simp add: lengthV_def dot_def)

lemma dot_le_lengths: "dot a b \<le> lengthV a * lengthV b"
proof -
  have "\<bar>dot a b\<bar> = sqrt (dot a b * dot a b)" by simp
  also have "\<dots> \<le> sqrt (dot a a * dot b b)"
    using cauchy_schwarz_sq by (rule real_sqrt_le_mono)
  also have "\<dots> = lengthV a * lengthV b"
    by (simp add: lengthV_dot real_sqrt_mult)
  finally show ?thesis by linarith
qed

lemma dot_multiplyScalar: "dot (multiplyScalar a k) (multiplyScalar b l) = k * l * dot a b"
  by (simp add: dot_def multiplyScalar_def algebra_simps)

lemma lengthV_nonneg: "0 \<le> lengthV a"
  by (simp add: lengthV_def)

lemma lengthV_zero_dot: "lengthV a = 0 \<Longrightarrow> dot a b = 0"
proof -
  assume "lengthV a = 0"
  then have "lengthV a * lengthV b = 0" by simp
  with dot_le_lengths [of a b] have le: "dot a b \<le> 0" by simp
  have "dot (multiplyScalar a (-1)) b \<le> lengthV (multiplyScalar a (-1)) * lengthV b"
    by (rule dot_le_lengths)
  moreover have "lengthV (multiplyScalar a (-1)) = lengthV a"
    by (simp add: lengthV_def multiplyScalar_def)
  moreover have "dot (multiplyScalar a (-1)) b = - dot a b"
    by (simp add: dot_def multiplyScalar_def)
  ultimately have "- dot a b \<le> 0" using \<open>lengthV a = 0\<close> by simp
  with le show ?thesis by simp
qed

lemma dot_normalizeV_le_1: "dot (normalizeV a) (normalizeV b) \<le> 1"
proof -
  let ?la = "if lengthV a = 0 then 1 else lengthV a"
  let ?lb = "if lengthV b = 0 then 1 else lengthV b"
  have eq: "dot (normalizeV a) (normalizeV b) = dot a b / (?la * ?lb)"
    by (simp add: normalizeV_def divideScalar_def dot_multiplyScalar)
  show ?thesis
  proof (cases "lengthV a = 0 \<or> lengthV b = 0")
    case True
    then have "dot a b = 0"
      using lengthV_zero_dot [of a b] lengthV_zero_dot [of b a]
      by (auto simp: dot_def mult.commute)
    with eq show ?thesis by simp
  next
    case False
    then have pos: "0 < lengthV a * lengthV b"
      using lengthV_nonneg [of a] lengthV_nonneg [of b] by (simp add: less_le)
    from False eq have "dot (normalizeV a) (normalizeV b) = dot a b / (lengthV a * lengthV b)"
      by simp
    also have "\<dots> \<le> 1" using dot_le_lengths [of a b] pos by simp
    finally show ?thesis .
  qed
qed


lemma costLoop_Some:
  "\<exists>n' m'. costLoop s v rest (Some n, m, t) =
       (Some n', m', t + sum_list (map (computeEdgeCollapseCost s v) rest)) \<and>
     ((n' = n \<and> m' = m \<and> (\<forall>x \<in> set rest. m \<le> computeEdgeCollapseCost s v x)) \<or>
      (\<exists>pre post. rest = pre @ n' # post \<and> m' = computeEdgeCollapseCost s v n' \<and>
          computeEdgeCollapseCost s v n' < m \<and>
          (\<forall>x \<in> set pre. computeEdgeCollapseCost s v n' < computeEdgeCollapseCost s v x) \<and>
          (\<forall>x \<in> set post. computeEdgeCollapseCost s v n' \<le> computeEdgeCollapseCost s v x)))"
proof (induction rest arbitrary: n m t)
  case Nil
  then show ?case by simp
next
  case (Cons x rest)
  let ?c = "computeEdgeCollapseCost s v"
  show ?case
  proof (cases "?c x < m")
    case True
    from Cons.IH [of x "?c x" "t + ?c x"] obtain n' m' where
      run: "costLoop s v rest (Some x, ?c x, t + ?c x) = (Some n', m', t + ?c x + sum_list (map ?c rest))"
      and alt: "(n' = x \<and> m' = ?c x \<and> (\<forall>y \<in> set rest. ?c x \<le> ?c y)) \<or>
        (\<exists>pre post. rest = pre @ n' # post \<and> m' = ?c n' \<and> ?c n' < ?c x \<and>
          (\<forall>y \<in> set pre. ?c n' < ?c y) \<and> (\<forall>y \<in> set post. ?c n' \<le> ?c y))"
      by blast
    from True run have eq: "costLoop s v (x # rest) (Some n, m, t) =
        (Some n', m', t + sum_list (map ?c (x # rest)))"
      by (simp add: add.assoc)
    from alt show ?thesis
    proof
      assume a: "n' = x \<and> m' = ?c x \<and> (\<forall>y \<in> set rest. ?c x \<le> ?c y)"
      then have "x # rest = [] @ n' # rest \<and> m' = ?c n' \<and> ?c n' < m \<and>
          (\<forall>y \<in> set []. ?c n' < ?c y) \<and> (\<forall>y \<in> set rest. ?c n' \<le> ?c y)"
        using True by simp
      with eq show ?thesis by blast
    next
      assume "\<exists>pre post. rest = pre @ n' # post \<and> m' = ?c n' \<and> ?c n' < ?c x \<and>
          (\<forall>y \<in> set pre. ?c n' < ?c y) \<and> (\<forall>y \<in> set post. ?c n' \<le> ?c y)"
      then obtain pre post where p: "rest = pre @ n' # post" "m' = ?c n'" "?c n' < ?c x"
          "\<forall>y \<in> set pre. ?c n' < ?c y" "\<forall>y \<in> set post. ?c n' \<le> ?c y"
        by blast
      then have "x # rest = (x # pre) @ n' # post \<and> m' = ?c n' \<and> ?c n' < m \<and>
          (\<forall>y \<in> set (x # pre). ?c n' < ?c y) \<and> (\<forall>y \<in> set post. ?c n' \<le> ?c y)"
        using True by simp
      with eq show ?thesis by blast
    qed
  next
    case False
    from Cons.IH [of n m "t + ?c x"] obtain n' m' where
      run: "costLoop s v rest (Some n, m, t + ?c x) = (Some n', m', t + ?c x + sum_list (map ?c rest))"
      and alt: "(n' = n \<and> m' = m \<and> (\<forall>y \<in> set rest. m \<le> ?c y)) \<or>
        (\<exists>pre post. rest = pre @ n' # post \<and> m' = ?c n' \<and> ?c n' < m \<and>
          (\<forall>y \<in> set pre. ?c n' < ?c y) \<and> (\<forall>y \<in> set post. ?c n' \<le> ?c y))"
      by blast
    from False run have eq: "costLoop s v (x # rest) (Some n, m, t) =
        (Some n', m', t + sum_list (map ?c (x # rest)))"
      by (simp add: add.assoc)
    from alt show ?thesis
    proof
      assume "n' = n \<and> m' = m \<and> (\<forall>y \<in> set rest. m \<le> ?c y)"
      with False have "n' = n \<and> m' = m \<and> (\<forall>y \<in> set (x # rest). m \<le> ?c y)" by simp
      with eq show ?thesis by blast
    next
      assume "\<exists>pre post. rest = pre @ n' # post \<and> m' = ?c n' \<and> ?c n' < m \<and>
          (\<forall>y \<in> set pre. ?c n' < ?c y) \<and> (\<forall>y \<in> set post. ?c n' \<le> ?c y)"
      then obtain pre post where p: "rest = pre @ n' # post" "m' = ?c n'" "?c n' < m"
          "\<forall>y \<in> set pre. ?c n' < ?c y" "\<forall>y \<in> set post. ?c n' \<le> ?c y"
        by blast
      then have "x # rest = (x # pre) @ n' # post \<and> m' = ?c n' \<and> ?c n' < m \<and>
          (\<forall>y \<in> set (x # pre). ?c n' < ?c y) \<and> (\<forall>y \<in> set post. ?c n' \<le> ?c y)"
        using False by auto
      with eq show ?thesis by blast
    qed
  qed
qed

lemma costLoop_first_min:
  assumes "ns \<noteq> []"
  shows "\<exists>n m pre post. costLoop s v ns (None, 0, 0) =
       (Some n, m, sum_list (map (computeEdgeCollapseCost s v) ns)) \<and>
     ns = pre @ n # post \<and>
     (\<forall>x \<in> set pre. computeEdgeCollapseCost s v n < computeEdgeCollapseCost s v x) \<and>
     (\<forall>x \<in> set post. computeEdgeCollapseCost s v n \<le> computeEdgeCollapseCost s v x)"
proof -
  let ?c = "computeEdgeCollapseCost s v"
  from assms obtain x rest where ns: "ns = x # rest" by (cases ns) auto
  from costLoop_Some [of s v rest x "?c x" "?c x"] obtain n' m' where
    run: "costLoop s v rest (Some x, ?c x, ?c x) = (Some n', m', ?c x + sum_list (map ?c rest))"
    and alt: "(n' = x \<and> m' = ?c x \<and> (\<forall>y \<in> set rest. ?c x \<le> ?c y)) \<or>
        (\<exists>pre post. rest = pre @ n' # post \<and> m' = ?c n' \<and> ?c n' < ?c x \<and>
          (\<forall>y \<in> set pre. ?c n' < ?c y) \<and> (\<forall>y \<in> set post. ?c n' \<le> ?c y))"
    by blast
  from run ns have eq: "costLoop s v ns (None, 0, 0) = (Some n', m', sum_list (map ?c ns))"
    by simp
  from alt show ?thesis
  proof
    assume "n' = x \<and> m' = ?c x \<and> (\<forall>y \<in> set rest. ?c x \<le> ?c y)"
    then have "ns = [] @ n' # rest \<and> (\<forall>y \<in> set []. ?c n' < ?c y) \<and> (\<forall>y \<in> set rest. ?c n' \<le> ?c y)"
      using ns by simp
    with eq show ?thesis by blast
  next
    assume "\<exists>pre post. rest = pre @ n' # post \<and> m' = ?c n' \<and> ?c n' < ?c x \<and>
          (\<forall>y \<in> set pre. ?c n' < ?c y) \<and> (\<forall>y \<in> set post. ?c n' \<le> ?c y)"
    then obtain pre post where p: "rest = pre @ n' # post" "?c n' < ?c x"
          "\<forall>y \<in> set pre. ?c n' < ?c y" "\<forall>y \<in> set post. ?c n' \<le> ?c y"
      by blast
    then have "ns = (x # pre) @ n' # post \<and> (\<forall>y \<in> set (x # pre). ?c n' < ?c y) \<and>
        (\<forall>y \<in> set post. ?c n' \<le> ?c y)"
      using ns by simp
    with eq show ?thesis by blast
  qed
qed


lemma distanceTo_commute: "distanceTo a b = distanceTo b a"
  by (simp add: distanceTo_def distanceToSquared_def algebra_simps)

lemma computeNormal_is_normalized: "\<exists>a. computeNormal s t = normalizeV a"
  by (auto simp: computeNormal_def Let_def)

lemma minCurvature_nonneg:
  assumes "normal (faceOf s t) = computeNormal s t"
    and "normal (faceOf s w0) = computeNormal s w0"
    and "normal (faceOf s w1) = computeNormal s w1"
  shows "0 \<le> minCurvature s w0 w1 t"
proof -
  obtain a b c where n: "computeNormal s t = normalizeV a" "computeNormal s w0 = normalizeV b"
      "computeNormal s w1 = normalizeV c"
    using computeNormal_is_normalized by metis
  have "dot (normalizeV a) (normalizeV b) \<le> 1" "dot (normalizeV a) (normalizeV c) \<le> 1"
    by (rule dot_normalizeV_le_1)+
  with assms n show ?thesis by (simp add: minCurvature_def)
qed

lemma curvatureOf_Max:
  assumes normals: "\<forall>t \<in> set (faces (vertexOf s u)). normal (faceOf s t) = computeNormal s t"
    and two: "length (sideFaces s u v) = 2"
  shows "curvatureOf s u v =
     Max (minCurvature s (sideFaces s u v ! 0) (sideFaces s u v ! 1) ` set (faces (vertexOf s u)))"
proof -
  let ?side = "sideFaces s u v"
  let ?g = "minCurvature s (?side ! 0) (?side ! 1)"
  let ?fs = "faces (vertexOf s u)"
  have sub: "set ?side \<subseteq> set ?fs" by (auto simp: sideFaces_def)
  from two have w0: "?side ! 0 \<in> set ?side" and w1: "?side ! 1 \<in> set ?side" by simp_all
  with sub have in0: "?side ! 0 \<in> set ?fs" and in1: "?side ! 1 \<in> set ?fs" by auto
  have nonneg: "0 \<le> ?g (?side ! 0)"
    using normals in0 in1 by (intro minCurvature_nonneg) auto
  have ne: "?g ` set ?fs \<noteq> {}" using in0 by auto
  have fin: "finite (?g ` set ?fs)" by simp
  have "?g (?side ! 0) \<le> Max (?g ` set ?fs)" using in0 by (intro Max_ge) auto
  with nonneg have "0 \<le> Max (?g ` set ?fs)" by linarith
  then have "Max (insert 0 (?g ` set ?fs)) = Max (?g ` set ?fs)"
    using ne fin by (simp add: max_def)
  with two show ?thesis
    by (simp add: curvatureOf_def Let_def fold_max_Max)
qed

text \<open>
  C4, amended. \<open>computeEdgeCollapseCost( u, v )\<close> is the distance between the two
  positions times the curvature. The curvature is 1 unless exactly two faces of \<open>u\<close>
  contain \<open>v\<close>; with two such wings it is the largest, over the faces \<open>f\<close> of \<open>u\<close>, of
  min(1, (1 - max(dot(f.normal, wing1.normal), dot(f.normal, wing2.normal))) / 2), but
  never less than 0, the value the accumulator starts from. For a vertex with
  neighbours, \<open>computeEdgeCostAtVertex\<close> stores the mean of the edge costs over the
  neighbours and, as collapse neighbour, the first neighbour in list order whose cost
  is minimal. Nothing is assumed about the stored normals.
\<close>

theorem C4_edge_costs:
  "(let pu = position (vertexOf s u); pv = position (vertexOf s v);
        wings = filter (\<lambda>t. v = v1 (faceOf s t) \<or> v = v2 (faceOf s t) \<or> v = v3 (faceOf s t))
                       (faces (vertexOf s u));
        nrm = (\<lambda>t. normal (faceOf s t));
        dt = (\<lambda>a b. vx a * vx b + vy a * vy b + vz a * vz b)
    in computeEdgeCollapseCost s u v =
         sqrt ((vx pv - vx pu) * (vx pv - vx pu) + (vy pv - vy pu) * (vy pv - vy pu) +
               (vz pv - vz pu) * (vz pv - vz pu)) *
         (if length wings \<noteq> 2 then 1
          else Max (insert 0
                 ((\<lambda>t. min 1 ((1 - max (dt (nrm t) (nrm (wings ! 0))) (dt (nrm t) (nrm (wings ! 1)))) / 2))
                    ` set (faces (vertexOf s u)))))) \<and>
   (neighbors (vertexOf s w) \<noteq> [] \<longrightarrow>
      (\<exists>n pre post.
          neighbors (vertexOf s w) = pre @ n # post \<and>
          (\<forall>x \<in> set pre. computeEdgeCollapseCost s w n < computeEdgeCollapseCost s w x) \<and>
          (\<forall>x \<in> set post. computeEdgeCollapseCost s w n \<le> computeEdgeCollapseCost s w x) \<and>
          collapseNeighbor (vertexOf (computeEdgeCostAtVertex w s) w) = Some n \<and>
          collapseCost (vertexOf (computeEdgeCostAtVertex w s) w) =
            sum_list (map (computeEdgeCollapseCost s w) (neighbors (vertexOf s w))) /
            real (length (neighbors (vertexOf s w)))))"
proof
  show "let pu = position (vertexOf s u); pv = position (vertexOf s v);
        wings = filter (\<lambda>t. v = v1 (faceOf s t) \<or> v = v2 (faceOf s t) \<or> v = v3 (faceOf s t))
                       (faces (vertexOf s u));
        nrm = (\<lambda>t. normal (faceOf s t));
        dt = (\<lambda>a b. vx a * vx b + vy a * vy b + vz a * vz b)
    in computeEdgeCollapseCost s u v =
         sqrt ((vx pv - vx pu) * (vx pv - vx pu) + (vy pv - vy pu) * (vy pv - vy pu) +
               (vz pv - vz pu) * (vz pv - vz pu)) *
         (if length wings \<noteq> 2 then 1
          else Max (insert 0
                 ((\<lambda>t. min 1 ((1 - max (dt (nrm t) (nrm (wings ! 0))) (dt (nrm t) (nrm (wings ! 1)))) / 2))
                    ` set (faces (vertexOf s u)))))"
    by (simp add: Let_def computeEdgeCollapseCost_def curvatureOf_def sideFaces_def hasVertex_def
          minCurvature_def dot_def distanceTo_def distanceToSquared_def fold_max_Max)
next
  show "neighbors (vertexOf s w) \<noteq> [] \<longrightarrow>
      (\<exists>n pre post.
          neighbors (vertexOf s w) = pre @ n # post \<and>
          (\<forall>x \<in> set pre. computeEdgeCollapseCost s w n < computeEdgeCollapseCost s w x) \<and>
          (\<forall>x \<in> set post. computeEdgeCollapseCost s w n \<le> computeEdgeCollapseCost s w x) \<and>
          collapseNeighbor (vertexOf (computeEdgeCostAtVertex w s) w) = Some n \<and>
          collapseCost (vertexOf (computeEdgeCostAtVertex w s) w) =
            sum_list (map (computeEdgeCollapseCost s w) (neighbors (vertexOf s w))) /
            real (length (neighbors (vertexOf s w))))"
  proof
    assume ne: "neighbors (vertexOf s w) \<noteq> []"
    let ?ns = "neighbors (vertexOf s w)"
    from costLoop_first_min [OF ne, of s w] obtain n m pre post where
      run: "costLoop s w ?ns (None, 0, 0) = (Some n, m, sum_list (map (computeEdgeCollapseCost s w) ?ns))"
      and split: "?ns = pre @ n # post"
      and pre: "\<forall>x \<in> set pre. computeEdgeCollapseCost s w n < computeEdgeCollapseCost s w x"
      and post: "\<forall>x \<in> set post. computeEdgeCollapseCost s w n \<le> computeEdgeCollapseCost s w x"
      by blast
    from ne run have
      "collapseNeighbor (vertexOf (computeEdgeCostAtVertex w s) w) = Some n"
      "collapseCost (vertexOf (computeEdgeCostAtVertex w s) w) =
         sum_list (map (computeEdgeCollapseCost s w) ?ns) / real (length ?ns)"
      by (simp_all add: computeEdgeCostAtVertex_def Let_def updVertex_def)
    with split pre post show "\<exists>n pre post.
          neighbors (vertexOf s w) = pre @ n # post \<and>
          (\<forall>x \<in> set pre. computeEdgeCollapseCost s w n < computeEdgeCollapseCost s w x) \<and>
          (\<forall>x \<in> set post. computeEdgeCollapseCost s w n \<le> computeEdgeCollapseCost s w x) \<and>
          collapseNeighbor (vertexOf (computeEdgeCostAtVertex w s) w) = Some n \<and>
          collapseCost (vertexOf (computeEdgeCostAtVertex w s) w) =
            sum_list (map (computeEdgeCollapseCost s w) (neighbors (vertexOf s w))) /
            real (length (neighbors (vertexOf s w)))"
      by blast
  qed
qed


subsection \<open>Evaluating the model on concrete meshes\<close>

lemma sqrt_values [simp]: "sqrt 9 = 3" "sqrt 16 = 4" "sqrt 25 = 5" "sqrt 144 = 12" "sqrt 400 = 20"
  "sqrt 256 = 16"
  by (simp_all add: real_sqrt_unique)

lemmas vector_defs =
  normalizeV_def cross_def subVectors_def addVectors_def divideScalar_def multiplyScalar_def
  lengthV_def dot_def distanceTo_def distanceToSquared_def

lemmas array_defs = insertAt_def removeFound_def spliceAt_def splice1_def

lemmas populate_defs =
  populateFromGeometry_def emptyMesh_def newVertex_def lookupVertex_def newTriangle_def
  pushFace_def addUniqueNeighbor_def updVertex_def updFace_def computeNormal_def computeCenter_def
  computeEdgeCostAtVertex_def computeEdgeCollapseCost_def curvatureOf_def sideFaces_def
  minCurvature_def hasVertex_def computeFaceHashes_def computeHash_def toString.simps

lemmas collapse_defs =
  collapse_def loopCount_def collapseStep_def moveFace_def linkFace_def unlinkFromFace_def
  replaceVertex_def reinsertVertex_def binarySearch.simps removeFace_def removeNonNeighbors_def
  dropFace_def removeVertex_def reindexFrom_def purgeNeighbors.simps removeIfNonNeighbor_def

lemma cornerMesh_facts:
  "position (vertexOf cornerMesh 0) = Vector3 0 0 0"
  "position (vertexOf cornerMesh (Suc 0)) = Vector3 3 0 0"
  "position (vertexOf cornerMesh 2) = Vector3 0 4 0"
  "position (vertexOf cornerMesh 3) = Vector3 0 0 4"
  "faces (vertexOf cornerMesh 0) = [0, 1, 2]"
  "neighbors (vertexOf cornerMesh 0) = [1, 2, 3]"
  "v1 (faceOf cornerMesh 0) = 0" "v2 (faceOf cornerMesh 0) = 1" "v3 (faceOf cornerMesh 0) = 2"
  "v1 (faceOf cornerMesh (Suc 0)) = 0" "v2 (faceOf cornerMesh (Suc 0)) = 1" "v3 (faceOf cornerMesh (Suc 0)) = 3"
  "v1 (faceOf cornerMesh 2) = 0" "v2 (faceOf cornerMesh 2) = 2" "v3 (faceOf cornerMesh 2) = 3"
  "normal (faceOf cornerMesh 0) = Vector3 0 0 1"
  "normal (faceOf cornerMesh (Suc 0)) = Vector3 0 (- 1) 0"
  "normal (faceOf cornerMesh 2) = Vector3 1 0 0"
  by (simp_all add: cornerMesh_def populate_defs vector_defs Let_def eval_nat_numeral cong: let_weak_cong)

lemma cornerMesh_costs:
  "computeEdgeCollapseCost cornerMesh 0 1 = 3 / 2"
  "computeEdgeCollapseCost cornerMesh 0 2 = 2"
  "computeEdgeCollapseCost cornerMesh 0 3 = 2"
  by (simp_all add: cornerMesh_facts computeEdgeCollapseCost_def curvatureOf_def sideFaces_def
        minCurvature_def hasVertex_def vector_defs)

text \<open>
  Witness for C4: at the corner, the edge from vertex 0 to vertex 1 has two wings, the
  third face is at right angles to both, so the curvature is 1/2 and the cost 3/2; the
  other two edges cost 2 each, so vertex 0 gets the collapse neighbour 1 and the cost
  11/6.
\<close>

theorem C4_edge_costs_witness:
  "length (filter (\<lambda>t. 1 = v1 (faceOf cornerMesh t) \<or> 1 = v2 (faceOf cornerMesh t) \<or>
                        1 = v3 (faceOf cornerMesh t)) (faces (vertexOf cornerMesh 0))) = 2 \<and>
   neighbors (vertexOf cornerMesh 0) \<noteq> [] \<and>
   computeEdgeCollapseCost cornerMesh 0 1 = 3 / 2 \<and>
   collapseNeighbor (vertexOf (computeEdgeCostAtVertex 0 cornerMesh) 0) = Some 1 \<and>
   collapseCost (vertexOf (computeEdgeCostAtVertex 0 cornerMesh) 0) = 11 / 6"
proof -
  note T = C4_edge_costs [of cornerMesh 0 1 0]
  have w: "length (filter (\<lambda>t. 1 = v1 (faceOf cornerMesh t) \<or> 1 = v2 (faceOf cornerMesh t) \<or>
                        1 = v3 (faceOf cornerMesh t)) (faces (vertexOf cornerMesh 0))) = 2"
    by (simp add: cornerMesh_facts)
  have ns: "neighbors (vertexOf cornerMesh 0) = [1, 2, 3]" by (simp add: cornerMesh_facts)
  from T have c1: "computeEdgeCollapseCost cornerMesh 0 1 = 3 / 2"
    by (simp add: Let_def cornerMesh_facts)
  have c2: "computeEdgeCollapseCost cornerMesh 0 2 = 2"
    and c3: "computeEdgeCollapseCost cornerMesh 0 3 = 2"
    by (rule cornerMesh_costs)+
  have ne: "neighbors (vertexOf cornerMesh 0) \<noteq> []" by (simp add: ns)
  from T have "neighbors (vertexOf cornerMesh 0) \<noteq> [] \<longrightarrow>
      (\<exists>n pre post.
          neighbors (vertexOf cornerMesh 0) = pre @ n # post \<and>
          (\<forall>x \<in> set pre. computeEdgeCollapseCost cornerMesh 0 n < computeEdgeCollapseCost cornerMesh 0 x) \<and>
          (\<forall>x \<in> set post. computeEdgeCollapseCost cornerMesh 0 n \<le> computeEdgeCollapseCost cornerMesh 0 x) \<and>
          collapseNeighbor (vertexOf (computeEdgeCostAtVertex 0 cornerMesh) 0) = Some n \<and>
          collapseCost (vertexOf (computeEdgeCostAtVertex 0 cornerMesh) 0) =
            sum_list (map (computeEdgeCollapseCost cornerMesh 0) (neighbors (vertexOf cornerMesh 0))) /
            real (length (neighbors (vertexOf cornerMesh 0))))"
    by (rule conjunct2)
  with ne obtain n pre post where
    sp: "neighbors (vertexOf cornerMesh 0) = pre @ n # post"
    and pre: "\<forall>x \<in> set pre. computeEdgeCollapseCost cornerMesh 0 n < computeEdgeCollapseCost cornerMesh 0 x"
    and cn: "collapseNeighbor (vertexOf (computeEdgeCostAtVertex 0 cornerMesh) 0) = Some n"
    and cc: "collapseCost (vertexOf (computeEdgeCostAtVertex 0 cornerMesh) 0) =
              sum_list (map (computeEdgeCollapseCost cornerMesh 0) (neighbors (vertexOf cornerMesh 0))) /
              real (length (neighbors (vertexOf cornerMesh 0)))"
    by blast
  from sp ns have "(pre = [] \<and> n = 1) \<or> (pre = [1] \<and> n = 2) \<or> (pre = [1, 2] \<and> n = 3)"
    by (auto simp: Cons_eq_append_conv append_eq_Cons_conv)
  with pre c1 c2 c3 have n1: "n = 1" by auto
  from cc ns c1 c2 c3 have "collapseCost (vertexOf (computeEdgeCostAtVertex 0 cornerMesh) 0) = 11 / 6"
    by simp
  with w ns c1 cn n1 show ?thesis by simp
qed


text \<open>
  The normal of the tilted fan in doubles: the squares and their sum, 18, are exact; the
  square root, the reciprocal and the product are rounded.
\<close>

lemma roundTiesToEven_eq:
  assumes "of_int m - 1 / 2 < y" and "y < of_int m + 1 / 2"
  shows "roundTiesToEven y = m"
proof (cases "of_int m \<le> y")
  case True
  with assms(2) have "\<lfloor>y\<rfloor> = m" by linarith
  with assms(2) show ?thesis by (simp add: roundTiesToEven_def)
next
  case False
  with assms(1) have f: "\<lfloor>y\<rfloor> = m - 1" by linarith
  with assms(1) have "1 / 2 < y - of_int \<lfloor>y\<rfloor>" by simp
  with f show ?thesis by (simp add: roundTiesToEven_def)
qed

lemma double_sqrt_18: "toDouble (sqrt 18) = 4776788754394329 / 2 ^ 50"
proof -
  have lo: "4 \<le> sqrt 18" by (rule real_le_rsqrt) simp
  have hi: "sqrt 18 < 8" by (rule real_less_lsqrt) simp_all
  have "toDouble (sqrt 18) = of_int (roundTiesToEven (sqrt 18 / pow2 (2 - 52))) * pow2 (2 - 52)"
    by (rule toDouble_at) (use lo hi in \<open>simp_all add: pow2_def\<close>)
  moreover have "roundTiesToEven (sqrt 18 / pow2 (2 - 52)) = 4776788754394329"
  proof (rule roundTiesToEven_eq)
    have "(4776788754394329 - 1 / 2) / 2 ^ 50 < sqrt 18"
      by (rule real_less_rsqrt) (simp add: power2_eq_square)
    then show "of_int 4776788754394329 - 1 / 2 < sqrt 18 / pow2 (2 - 52)"
      by (simp add: pow2_def field_simps)
    have "sqrt 18 < (4776788754394329 + 1 / 2) / 2 ^ 50"
      by (rule real_less_lsqrt) (simp_all add: power2_eq_square)
    then show "sqrt 18 / pow2 (2 - 52) < of_int 4776788754394329 + 1 / 2"
      by (simp add: pow2_def field_simps)
  qed
  ultimately show ?thesis by (simp add: pow2_def)
qed

lemma double_normal_component:
  "toDouble (3 * toDouble (1 / toDouble (sqrt (3 * 3 + 3 * 3 + 0 * 0)))) = 6369051672525773 / 2 ^ 53"
proof -
  have inv: "toDouble (1 / (4776788754394329 / 2 ^ 50)) = 8492068896701031 / 2 ^ 55"
  proof -
    have "toDouble (1 / (4776788754394329 / 2 ^ 50)) =
        of_int (roundTiesToEven (1 / (4776788754394329 / 2 ^ 50) / pow2 (- 3 - 52))) * pow2 (- 3 - 52)"
      by (rule toDouble_at) (simp_all add: pow2_def)
    also have "\<dots> = 8492068896701031 / 2 ^ 55" by (simp add: pow2_def roundTiesToEven_def)
    finally show ?thesis .
  qed
  have n: "toDouble (3 * (8492068896701031 / 2 ^ 55)) = 6369051672525773 / 2 ^ 53"
  proof -
    have "toDouble (3 * (8492068896701031 / 2 ^ 55)) =
        of_int (roundTiesToEven (3 * (8492068896701031 / 2 ^ 55) / pow2 (- 1 - 52))) * pow2 (- 1 - 52)"
      by (rule toDouble_at) (simp_all add: pow2_def)
    also have "\<dots> = 6369051672525773 / 2 ^ 53" by (simp add: pow2_def roundTiesToEven_def)
    finally show ?thesis .
  qed
  have s: "sqrt (3 * 3 + 3 * 3 + 0 * 0) = sqrt 18" by simp
  show ?thesis by (simp only: s double_sqrt_18 inv n)
qed

lemma tiltedFan_facts:
  "position (vertexOf tiltedFan 0) = Vector3 0 0 0"
  "position (vertexOf tiltedFan 2) = Vector3 0 0 1"
  "faces (vertexOf tiltedFan 0) = [0, 1]"
  "v1 (faceOf tiltedFan 0) = 0" "v2 (faceOf tiltedFan 0) = 1" "v3 (faceOf tiltedFan 0) = 2"
  "v1 (faceOf tiltedFan (Suc 0)) = 0" "v2 (faceOf tiltedFan (Suc 0)) = 2" "v3 (faceOf tiltedFan (Suc 0)) = 3"
  "normal (faceOf tiltedFan 0) = doubleNormal"
  "normal (faceOf tiltedFan (Suc 0)) = doubleNormal"
  by (simp_all add: tiltedFan_def populate_defs Let_def eval_nat_numeral cong: let_weak_cong)


text \<open>
  C4, as stated, fails by a rounding. On the tilted fan the edge from vertex 0 to
  vertex 2 has two wings, and the dot product of the stored normal with itself exceeds
  1, so the value min(1, (1 - max(..)) / 2) is negative for both faces of vertex 0: their
  maximum is negative, while the program returns the cost 0.
\<close>

theorem C4_counterexample:
  "(let pu = position (vertexOf tiltedFan 0); pv = position (vertexOf tiltedFan 2);
        wings = filter (\<lambda>t. 2 = v1 (faceOf tiltedFan t) \<or> 2 = v2 (faceOf tiltedFan t) \<or>
                            2 = v3 (faceOf tiltedFan t)) (faces (vertexOf tiltedFan 0));
        nrm = (\<lambda>t. normal (faceOf tiltedFan t));
        dt = (\<lambda>a b. vx a * vx b + vy a * vy b + vz a * vz b)
    in length wings = 2 \<and>
       1 < dt (nrm 0) (nrm 1) \<and>
       computeEdgeCollapseCost tiltedFan 0 2 = 0 \<and>
       sqrt ((vx pv - vx pu) * (vx pv - vx pu) + (vy pv - vy pu) * (vy pv - vy pu) +
             (vz pv - vz pu) * (vz pv - vz pu)) *
         Max ((\<lambda>t. min 1 ((1 - max (dt (nrm t) (nrm (wings ! 0))) (dt (nrm t) (nrm (wings ! 1)))) / 2))
                ` set (faces (vertexOf tiltedFan 0))) < 0)"
  by (simp add: Let_def tiltedFan_facts doubleNormal_def computeEdgeCollapseCost_def curvatureOf_def
        sideFaces_def minCurvature_def hasVertex_def vector_defs)




section \<open>Array helpers\<close>

lemma indexOf_None_iff: "indexOf xs x = None \<longleftrightarrow> x \<notin> set xs"
  by (induction xs) (auto split: option.splits)

lemma indexOf_Some: "indexOf xs x = Some i \<Longrightarrow> i < length xs \<and> xs ! i = x"
  by (induction xs arbitrary: i) (auto split: option.splits if_splits)

lemma splice1_indexOf: "indexOf xs x = Some i \<Longrightarrow> splice1 i xs = remove1 x xs"
proof (induction xs arbitrary: i)
  case Nil
  then show ?case by simp
next
  case (Cons y ys)
  show ?case
  proof (cases "y = x")
    case True
    with Cons.prems show ?thesis by (simp add: splice1_def)
  next
    case False
    with Cons.prems obtain j where j: "indexOf ys x = Some j" "i = Suc j"
      by (auto split: option.splits)
    with Cons.IH [of j] False show ?thesis by (simp add: splice1_def)
  qed
qed

lemma removeFound_indexOf: "removeFound (indexOf xs x) xs = remove1 x xs"
proof (cases "indexOf xs x")
  case None
  then have "x \<notin> set xs" by (simp add: indexOf_None_iff)
  with None show ?thesis by (simp add: removeFound_def remove1_idem)
next
  case (Some i)
  then show ?thesis by (simp add: removeFound_def splice1_indexOf)
qed

lemma length_splice1: "i < length xs \<Longrightarrow> length (splice1 i xs) = length xs - 1"
  by (simp add: splice1_def)

lemma splice1_nth:
  "j < length xs - 1 \<Longrightarrow> splice1 i xs ! j = (if j < i then xs ! j else xs ! Suc j)"
  by (auto simp: splice1_def nth_append min_def)

section \<open>Frames of the primitive updates\<close>

lemma updVertex_frame [simp]:
  "faceOf (updVertex v f s) = faceOf s"
  "arrFaces (updVertex v f s) = arrFaces s"
  "arrVertices (updVertex v f s) = arrVertices s"
  "arrVerticesByCost (updVertex v f s) = arrVerticesByCost s"
  "vertexOf (updVertex v f s) x = (if x = v then f (vertexOf s v) else vertexOf s x)"
  by (simp_all add: updVertex_def)

lemma updFace_frame [simp]:
  "vertexOf (updFace t f s) = vertexOf s"
  "arrFaces (updFace t f s) = arrFaces s"
  "arrVertices (updFace t f s) = arrVertices s"
  "arrVerticesByCost (updFace t f s) = arrVerticesByCost s"
  "faceOf (updFace t f s) x = (if x = t then f (faceOf s t) else faceOf s x)"
  by (simp_all add: updFace_def)

lemma addUniqueNeighbor_frame [simp]:
  "faceOf (addUniqueNeighbor a b s) = faceOf s"
  "arrFaces (addUniqueNeighbor a b s) = arrFaces s"
  "arrVertices (addUniqueNeighbor a b s) = arrVertices s"
  "arrVerticesByCost (addUniqueNeighbor a b s) = arrVerticesByCost s"
  "vertexOf (addUniqueNeighbor a b s) x =
     (vertexOf s x)\<lparr>neighbors :=
        (if x = a \<and> b \<notin> set (neighbors (vertexOf s a)) then neighbors (vertexOf s a) @ [b]
         else neighbors (vertexOf s x))\<rparr>"
  by (simp_all add: addUniqueNeighbor_def indexOf_None_iff)

lemma removeIfNonNeighbor_frame [simp]:
  "faceOf (removeIfNonNeighbor a b s) = faceOf s"
  "arrFaces (removeIfNonNeighbor a b s) = arrFaces s"
  "arrVertices (removeIfNonNeighbor a b s) = arrVertices s"
  "arrVerticesByCost (removeIfNonNeighbor a b s) = arrVerticesByCost s"
  "vertexOf (removeIfNonNeighbor a b s) x =
     (vertexOf s x)\<lparr>neighbors :=
        (if x = a \<and> \<not> (\<exists>t \<in> set (faces (vertexOf s a)). hasVertex (faceOf s t) b)
         then remove1 b (neighbors (vertexOf s a))
         else neighbors (vertexOf s x))\<rparr>"
proof -
  show "vertexOf (removeIfNonNeighbor a b s) x =
     (vertexOf s x)\<lparr>neighbors :=
        (if x = a \<and> \<not> (\<exists>t \<in> set (faces (vertexOf s a)). hasVertex (faceOf s t) b)
         then remove1 b (neighbors (vertexOf s a))
         else neighbors (vertexOf s x))\<rparr>"
  proof (cases "indexOf (neighbors (vertexOf s a)) b")
    case None
    then have "b \<notin> set (neighbors (vertexOf s a))" by (simp add: indexOf_None_iff)
    then have "remove1 b (neighbors (vertexOf s a)) = neighbors (vertexOf s a)"
      by (simp add: remove1_idem)
    with None show ?thesis by (simp add: removeIfNonNeighbor_def)
  next
    case (Some i)
    then show ?thesis by (simp add: removeIfNonNeighbor_def splice1_indexOf)
  qed
qed (simp_all add: removeIfNonNeighbor_def split: option.splits)

lemma pushFace_frame [simp]:
  "faceOf (pushFace v t s) = faceOf s"
  "arrFaces (pushFace v t s) = arrFaces s"
  "arrVertices (pushFace v t s) = arrVertices s"
  "arrVerticesByCost (pushFace v t s) = arrVerticesByCost s"
  "vertexOf (pushFace v t s) x =
     (vertexOf s x)\<lparr>faces := (if x = v then faces (vertexOf s v) @ [t] else faces (vertexOf s x))\<rparr>"
  by (simp_all add: pushFace_def)

lemma dropFace_frame [simp]:
  "faceOf (dropFace f v s) = faceOf s"
  "arrFaces (dropFace f v s) = arrFaces s"
  "arrVertices (dropFace f v s) = arrVertices s"
  "arrVerticesByCost (dropFace f v s) = arrVerticesByCost s"
  "vertexOf (dropFace f v s) x =
     (vertexOf s x)\<lparr>faces := (if x = v then remove1 f (faces (vertexOf s v)) else faces (vertexOf s x))\<rparr>"
  by (simp_all add: dropFace_def removeFound_indexOf)

lemma drop_remove1_at: "i < length xs \<Longrightarrow> xs ! i = f \<Longrightarrow> drop i (remove1 f xs) = drop (Suc i) xs"
proof (induction xs arbitrary: i)
  case Nil
  then show ?case by simp
next
  case (Cons y ys)
  show ?case
  proof (cases "y = f")
    case True
    then show ?thesis by simp
  next
    case False
    with Cons.prems obtain j where j: "i = Suc j" by (cases i) auto
    with Cons.prems Cons.IH [of j] False show ?thesis by simp
  qed
qed

lemma set_drop_remove1: "set (drop i (remove1 f xs)) \<subseteq> set (drop i xs)"
proof (induction xs arbitrary: i)
  case Nil
  then show ?case by simp
next
  case (Cons y ys)
  show ?case
  proof (cases i)
    case 0
    then show ?thesis using set_remove1_subset [of f "y # ys"] by simp
  next
    case (Suc j)
    show ?thesis
    proof (cases "y = f")
      case True
      have "set (drop (Suc j) ys) \<subseteq> set (drop j ys)"
        by (rule set_drop_subset_set_drop) simp
      with True Suc show ?thesis by simp
    next
      case False
      with Suc Cons.IH [of j] show ?thesis by simp
    qed
  qed
qed

lemma set_drop_removeIf: "set (drop i (removeIf p f xs)) \<subseteq> set (drop i xs)"
  using set_drop_remove1 [of i f xs] by (simp add: removeIf_def)

lemma set_removeIf: "set (removeIf p f xs) \<subseteq> set xs"
  using set_remove1_subset [of f xs] by (auto simp: removeIf_def)

lemma drop_removeIf3:
  assumes "p \<or> q \<or> r" "i < length xs" "xs ! i = f"
  shows "set (drop i (removeIf r f (removeIf q f (removeIf p f xs)))) \<subseteq> set (drop (Suc i) xs)"
proof (cases p)
  case True
  then have "drop i (removeIf p f xs) = drop (Suc i) xs"
    using assms by (simp add: removeIf_def drop_remove1_at)
  then show ?thesis
    using set_drop_removeIf [of i r f "removeIf q f (removeIf p f xs)"]
      set_drop_removeIf [of i q f "removeIf p f xs"] by auto
next
  case False
  note np = this
  show ?thesis
  proof (cases q)
    case True
    then have "drop i (removeIf q f (removeIf p f xs)) = drop (Suc i) xs"
      using assms np by (simp add: removeIf_def drop_remove1_at)
    then show ?thesis
      using set_drop_removeIf [of i r f "removeIf q f (removeIf p f xs)"] by auto
  next
    case False
    with np assms have r by simp
    with np False assms show ?thesis by (simp add: removeIf_def drop_remove1_at)
  qed
qed

section \<open>Frames of removeFace\<close>

lemma removeNonNeighbors_frame [simp]:
  "faceOf (removeNonNeighbors a b s) = faceOf s"
  "arrFaces (removeNonNeighbors a b s) = arrFaces s"
  "arrVertices (removeNonNeighbors a b s) = arrVertices s"
  "arrVerticesByCost (removeNonNeighbors a b s) = arrVerticesByCost s"
  "faces (vertexOf (removeNonNeighbors a b s) x) = faces (vertexOf s x)"
  "index (vertexOf (removeNonNeighbors a b s) x) = index (vertexOf s x)"
  "position (vertexOf (removeNonNeighbors a b s) x) = position (vertexOf s x)"
  "collapseCost (vertexOf (removeNonNeighbors a b s) x) = collapseCost (vertexOf s x)"
  "collapseNeighbor (vertexOf (removeNonNeighbors a b s) x) = collapseNeighbor (vertexOf s x)"
  by (simp_all add: removeNonNeighbors_def)

lemma removeFace_frame [simp]:
  "faceOf (removeFace f s) = faceOf s"
  "arrFaces (removeFace f s) = remove1 f (arrFaces s)"
  "arrVertices (removeFace f s) = arrVertices s"
  "arrVerticesByCost (removeFace f s) = arrVerticesByCost s"
  "index (vertexOf (removeFace f s) x) = index (vertexOf s x)"
  "position (vertexOf (removeFace f s) x) = position (vertexOf s x)"
  "collapseCost (vertexOf (removeFace f s) x) = collapseCost (vertexOf s x)"
  "collapseNeighbor (vertexOf (removeFace f s) x) = collapseNeighbor (vertexOf s x)"
  by (simp_all add: removeFace_def Let_def removeFound_indexOf)

lemma removeFace_faces:
  "faces (vertexOf (removeFace f s) x) =
     removeIf (x = v3 (faceOf s f)) f (removeIf (x = v2 (faceOf s f)) f
       (removeIf (x = v1 (faceOf s f)) f (faces (vertexOf s x))))"
  by (simp add: removeFace_def Let_def removeIf_def)

section \<open>The faces on the edge are gone before the rewrite\<close>

lemma offEdge_removeFace: "offEdge s u v t \<Longrightarrow> offEdge (removeFace f s) u v t"
  using set_remove1_subset [of f "arrFaces s"] by (auto simp: offEdge_def)

lemma deleteEdgeFaces_frame [simp]:
  "faceOf (deleteEdgeFaces n u v s) = faceOf s"
  "arrVertices (deleteEdgeFaces n u v s) = arrVertices s"
  "arrVerticesByCost (deleteEdgeFaces n u v s) = arrVerticesByCost s"
  "index (vertexOf (deleteEdgeFaces n u v s) x) = index (vertexOf s x)"
  "position (vertexOf (deleteEdgeFaces n u v s) x) = position (vertexOf s x)"
  "collapseCost (vertexOf (deleteEdgeFaces n u v s) x) = collapseCost (vertexOf s x)"
  "collapseNeighbor (vertexOf (deleteEdgeFaces n u v s) x) = collapseNeighbor (vertexOf s x)"
  by (induction n arbitrary: s; simp add: Let_def)+

lemma deleteEdgeFaces_arrFaces: "set (arrFaces (deleteEdgeFaces n u v s)) \<subseteq> set (arrFaces s)"
proof (induction n arbitrary: s)
  case 0
  then show ?case by simp
next
  case (Suc n)
  show ?case
    using Suc.IH [of s] Suc.IH [of "removeFace (faces (vertexOf s u) ! n) s"]
      set_remove1_subset [of "faces (vertexOf s u) ! n" "arrFaces s"]
    by (auto simp: Let_def)
qed

lemma deleteEdgeFaces_offEdge:
  "\<forall>t \<in> set (drop n (faces (vertexOf s u))). offEdge s u v t \<Longrightarrow>
   \<forall>t \<in> set (faces (vertexOf (deleteEdgeFaces n u v s) u)). offEdge (deleteEdgeFaces n u v s) u v t"
proof (induction n arbitrary: s)
  case 0
  then show ?case by simp
next
  case (Suc i)
  let ?fs = "faces (vertexOf s u)"
  let ?f = "?fs ! i"
  show ?case
  proof (cases "i < length ?fs \<and> hasVertex (faceOf s ?f) v")
    case False
    have "\<forall>t \<in> set (drop i ?fs). offEdge s u v t"
    proof (cases "i < length ?fs")
      case True
      with False have "offEdge s u v ?f" by (simp add: offEdge_def)
      moreover from True have "drop i ?fs = ?f # drop (Suc i) ?fs"
        by (simp add: Cons_nth_drop_Suc)
      ultimately show ?thesis using Suc.prems by simp
    next
      case False
      then show ?thesis by simp
    qed
    from Suc.IH [OF this] False show ?thesis by (auto simp: Let_def)
  next
    case True
    let ?s' = "removeFace ?f s"
    let ?fs' = "faces (vertexOf ?s' u)"
    have "\<forall>t \<in> set (drop i ?fs'). offEdge ?s' u v t"
    proof
      fix t assume t: "t \<in> set (drop i ?fs')"
      show "offEdge ?s' u v t"
      proof (cases "hasVertex (faceOf s ?f) u")
        case hu: True
        then have "u = v1 (faceOf s ?f) \<or> u = v2 (faceOf s ?f) \<or> u = v3 (faceOf s ?f)"
          by (simp add: hasVertex_def)
        from drop_removeIf3 [OF this, of i ?fs ?f] True t
        have "t \<in> set (drop (Suc i) ?fs)" by (auto simp: removeFace_faces)
        with Suc.prems have "offEdge s u v t" by simp
        then show ?thesis by (rule offEdge_removeFace)
      next
        case False
        then have "?fs' = ?fs" by (simp add: removeFace_faces removeIf_def hasVertex_def)
        with t True have "t = ?f \<or> t \<in> set (drop (Suc i) ?fs)"
          by (simp add: Cons_nth_drop_Suc [symmetric])
        then show ?thesis
        proof
          assume "t = ?f"
          with False show ?thesis by (simp add: offEdge_def)
        next
          assume "t \<in> set (drop (Suc i) ?fs)"
          with Suc.prems have "offEdge s u v t" by simp
          then show ?thesis by (rule offEdge_removeFace)
        qed
      qed
    qed
    from Suc.IH [OF this] True show ?thesis by (simp add: Let_def)
  qed
qed

section \<open>Frames of moveFace\<close>

lemma unlinkFromFace_frame [simp]:
  "faceOf (unlinkFromFace u f s) = faceOf s"
  "arrFaces (unlinkFromFace u f s) = arrFaces s"
  "arrVertices (unlinkFromFace u f s) = arrVertices s"
  "arrVerticesByCost (unlinkFromFace u f s) = arrVerticesByCost s"
  "faces (vertexOf (unlinkFromFace u f s) x) = faces (vertexOf s x)"
  "index (vertexOf (unlinkFromFace u f s) x) = index (vertexOf s x)"
  "position (vertexOf (unlinkFromFace u f s) x) = position (vertexOf s x)"
  "collapseCost (vertexOf (unlinkFromFace u f s) x) = collapseCost (vertexOf s x)"
  "collapseNeighbor (vertexOf (unlinkFromFace u f s) x) = collapseNeighbor (vertexOf s x)"
  by (simp_all add: unlinkFromFace_def Let_def)

lemma linkFace_frame [simp]:
  "faceOf (linkFace f s) = faceOf s"
  "arrFaces (linkFace f s) = arrFaces s"
  "arrVertices (linkFace f s) = arrVertices s"
  "arrVerticesByCost (linkFace f s) = arrVerticesByCost s"
  "faces (vertexOf (linkFace f s) x) = faces (vertexOf s x)"
  "index (vertexOf (linkFace f s) x) = index (vertexOf s x)"
  "position (vertexOf (linkFace f s) x) = position (vertexOf s x)"
  "collapseCost (vertexOf (linkFace f s) x) = collapseCost (vertexOf s x)"
  "collapseNeighbor (vertexOf (linkFace f s) x) = collapseNeighbor (vertexOf s x)"
  by (simp_all add: linkFace_def Let_def)

lemma moveFace_frame [simp]:
  "arrFaces (moveFace i u v s) = arrFaces s"
  "arrVertices (moveFace i u v s) = arrVertices s"
  "arrVerticesByCost (moveFace i u v s) = arrVerticesByCost s"
  "index (vertexOf (moveFace i u v s) x) = index (vertexOf s x)"
  "position (vertexOf (moveFace i u v s) x) = position (vertexOf s x)"
  "collapseCost (vertexOf (moveFace i u v s) x) = collapseCost (vertexOf s x)"
  "collapseNeighbor (vertexOf (moveFace i u v s) x) = collapseNeighbor (vertexOf s x)"
  by (simp_all add: moveFace_def Let_def)

lemma moveFace_faces:
  "faces (vertexOf (moveFace i u v s) x) =
     (if x = v then (if x = u then splice1 i (faces (vertexOf s u)) else faces (vertexOf s x))
                    @ [faces (vertexOf s u) ! i]
      else if x = u then splice1 i (faces (vertexOf s u))
      else faces (vertexOf s x))"
  by (simp add: moveFace_def Let_def)

lemma moveFace_corners:
  "v1 (faceOf (moveFace i u v s) t) =
     v1 (if t = faces (vertexOf s u) ! i then replaceVertex u v (faceOf s t) else faceOf s t)"
  "v2 (faceOf (moveFace i u v s) t) =
     v2 (if t = faces (vertexOf s u) ! i then replaceVertex u v (faceOf s t) else faceOf s t)"
  "v3 (faceOf (moveFace i u v s) t) =
     v3 (if t = faces (vertexOf s u) ! i then replaceVertex u v (faceOf s t) else faceOf s t)"
  by (simp_all add: moveFace_def Let_def)

lemma moveFace_hasVertex:
  "hasVertex (faceOf (moveFace i u v s) t) x =
     hasVertex (if t = faces (vertexOf s u) ! i then replaceVertex u v (faceOf s t) else faceOf s t) x"
  by (simp add: hasVertex_def moveFace_corners)

section \<open>Frames of removeVertex\<close>

lemma purgeNeighbors_frame [simp]:
  "faceOf (purgeNeighbors w s) = faceOf s \<and>
   arrFaces (purgeNeighbors w s) = arrFaces s \<and>
   arrVertices (purgeNeighbors w s) = arrVertices s \<and>
   arrVerticesByCost (purgeNeighbors w s) = arrVerticesByCost s \<and>
   faces (vertexOf (purgeNeighbors w s) x) = faces (vertexOf s x) \<and>
   index (vertexOf (purgeNeighbors w s) x) = index (vertexOf s x) \<and>
   position (vertexOf (purgeNeighbors w s) x) = position (vertexOf s x) \<and>
   collapseCost (vertexOf (purgeNeighbors w s) x) = collapseCost (vertexOf s x) \<and>
   collapseNeighbor (vertexOf (purgeNeighbors w s) x) = collapseNeighbor (vertexOf s x)"
proof (induction w s rule: purgeNeighbors.induct)
  case (1 w s)
  show ?case
  proof (cases "neighbors (vertexOf s w) = []")
    case True
    then show ?thesis by (simp add: purgeNeighbors.simps [of w s])
  next
    case False
    from "1.IH" [OF refl False refl refl refl]
    show ?thesis
      using False
      by (subst (1 2 3 4 5 6 7 8 9) purgeNeighbors.simps) (simp add: Let_def split: option.splits)
  qed
qed

section \<open>Renumbering\<close>

lemma reindexFrom_fold: "reindexFrom k s = fold setIndex [k ..< length (arrVertices s)] s"
  by (simp add: reindexFrom_def setIndex_def [abs_def])

lemma setIndex_frame [simp]:
  "faceOf (setIndex i s) = faceOf s"
  "arrFaces (setIndex i s) = arrFaces s"
  "arrVertices (setIndex i s) = arrVertices s"
  "arrVerticesByCost (setIndex i s) = arrVerticesByCost s"
  "faces (vertexOf (setIndex i s) x) = faces (vertexOf s x)"
  "neighbors (vertexOf (setIndex i s) x) = neighbors (vertexOf s x)"
  "position (vertexOf (setIndex i s) x) = position (vertexOf s x)"
  "collapseCost (vertexOf (setIndex i s) x) = collapseCost (vertexOf s x)"
  "collapseNeighbor (vertexOf (setIndex i s) x) = collapseNeighbor (vertexOf s x)"
  "index (vertexOf (setIndex i s) x) = (if x = arrVertices s ! i then i else index (vertexOf s x))"
  by (simp_all add: setIndex_def)

lemma fold_setIndex_frame [simp]:
  "faceOf (fold setIndex js s) = faceOf s"
  "arrFaces (fold setIndex js s) = arrFaces s"
  "arrVertices (fold setIndex js s) = arrVertices s"
  "arrVerticesByCost (fold setIndex js s) = arrVerticesByCost s"
  "faces (vertexOf (fold setIndex js s) x) = faces (vertexOf s x)"
  "neighbors (vertexOf (fold setIndex js s) x) = neighbors (vertexOf s x)"
  "position (vertexOf (fold setIndex js s) x) = position (vertexOf s x)"
  "collapseCost (vertexOf (fold setIndex js s) x) = collapseCost (vertexOf s x)"
  "collapseNeighbor (vertexOf (fold setIndex js s) x) = collapseNeighbor (vertexOf s x)"
  by (induction js arbitrary: s; simp)+

lemma fold_setIndex_other:
  "\<forall>j \<in> set js. arrVertices s ! j \<noteq> x \<Longrightarrow>
   index (vertexOf (fold setIndex js s) x) = index (vertexOf s x)"
  by (induction js arbitrary: s) simp_all

lemma fold_setIndex_at:
  assumes "distinct (arrVertices s)" "\<forall>j \<in> set js. j < length (arrVertices s)" "i \<in> set js"
  shows "index (vertexOf (fold setIndex js s) (arrVertices s ! i)) = i"
  using assms
proof (induction js arbitrary: s)
  case Nil
  then show ?case by simp
next
  case (Cons j js)
  show ?case
  proof (cases "i \<in> set js")
    case True
    with Cons.IH [of "setIndex j s"] Cons.prems show ?thesis by simp
  next
    case False
    with Cons.prems have ij: "i = j" by simp
    have "\<forall>m \<in> set js. arrVertices (setIndex j s) ! m \<noteq> arrVertices s ! i"
    proof
      fix m assume m: "m \<in> set js"
      with False have "m \<noteq> i" by auto
      moreover from m Cons.prems ij have "m < length (arrVertices s)" "i < length (arrVertices s)"
        by simp_all
      ultimately show "arrVertices (setIndex j s) ! m \<noteq> arrVertices s ! i"
        using Cons.prems(1) by (simp add: nth_eq_iff_index_eq)
    qed
    from fold_setIndex_other [OF this] ij show ?thesis by simp
  qed
qed

section \<open>Frames of removeVertex\<close>

lemma removeVertex_frame [simp]:
  "faceOf (removeVertex w s) = faceOf s"
  "arrFaces (removeVertex w s) = arrFaces s"
  "arrVertices (removeVertex w s) = splice1 (index (vertexOf s w)) (arrVertices s)"
  "faces (vertexOf (removeVertex w s) x) = faces (vertexOf s x)"
  "position (vertexOf (removeVertex w s) x) = position (vertexOf s x)"
  "collapseCost (vertexOf (removeVertex w s) x) = collapseCost (vertexOf s x)"
  "collapseNeighbor (vertexOf (removeVertex w s) x) = collapseNeighbor (vertexOf s x)"
  by (simp_all add: removeVertex_def Let_def reindexFrom_fold)

section \<open>The index invariant\<close>

lemma indexed_distinct: "indexed s \<Longrightarrow> distinct (arrVertices s)"
  unfolding indexed_def distinct_conv_nth by metis

lemma distinct_splice1: "distinct xs \<Longrightarrow> distinct (splice1 k xs)"
  unfolding splice1_def
  using distinct_take [of xs k] distinct_drop [of xs "Suc k"] set_take_disj_set_drop_if_distinct [of xs k "Suc k"]
  by auto

lemma removeVertex_indexed:
  assumes ok: "indexed s" and k: "k < length (arrVertices s)" and w: "arrVertices s ! k = w"
  shows "indexed (removeVertex w s) \<and> length (arrVertices (removeVertex w s)) + 1 = length (arrVertices s)"
proof -
  let ?V = "arrVertices s"
  let ?V' = "splice1 k ?V"
  from ok k w have kw: "index (vertexOf s w) = k" by (auto simp: indexed_def)
  let ?s2 = "(purgeNeighbors w s)\<lparr>arrVertices := ?V'\<rparr>"
  have dV: "distinct ?V" using ok by (rule indexed_distinct)
  then have dV': "distinct ?V'" by (rule distinct_splice1)
  have len: "length ?V' = length ?V - 1" using k by (rule length_splice1)
  have idx: "index (vertexOf (removeVertex w s) x) =
      index (vertexOf (fold setIndex [k ..< length ?V'] ?s2) x)" for x
    by (simp add: removeVertex_def Let_def reindexFrom_fold kw)
  have "index (vertexOf (removeVertex w s) (?V' ! i)) = i" if i: "i < length ?V'" for i
  proof (cases "k \<le> i")
    case True
    have "index (vertexOf (fold setIndex [k ..< length ?V'] ?s2) (arrVertices ?s2 ! i)) = i"
      using dV' True i by (intro fold_setIndex_at) simp_all
    then show ?thesis by (simp add: idx)
  next
    case False
    have "\<forall>j \<in> set [k ..< length ?V']. arrVertices ?s2 ! j \<noteq> ?V' ! i"
      using dV' i False by (auto simp: nth_eq_iff_index_eq)
    from fold_setIndex_other [OF this]
    have e1: "index (vertexOf (removeVertex w s) (?V' ! i)) = index (vertexOf s (?V' ! i))"
      by (simp add: idx)
    have e2: "?V' ! i = ?V ! i" using False i len by (simp add: splice1_nth)
    have "index (vertexOf s (?V ! i)) = i" using ok i len by (simp add: indexed_def)
    with e1 e2 show ?thesis by simp
  qed
  then have "indexed (removeVertex w s)" by (simp add: indexed_def kw)
  moreover have "length (arrVertices (removeVertex w s)) + 1 = length ?V"
    using len k by (simp add: kw)
  ultimately show ?thesis by blast
qed

section \<open>Frames of the cost update and the re-insertion\<close>

lemma computeEdgeCostAtVertex_frame [simp]:
  "faceOf (computeEdgeCostAtVertex w s) = faceOf s"
  "arrFaces (computeEdgeCostAtVertex w s) = arrFaces s"
  "arrVertices (computeEdgeCostAtVertex w s) = arrVertices s"
  "arrVerticesByCost (computeEdgeCostAtVertex w s) = arrVerticesByCost s"
  "faces (vertexOf (computeEdgeCostAtVertex w s) x) = faces (vertexOf s x)"
  "neighbors (vertexOf (computeEdgeCostAtVertex w s) x) = neighbors (vertexOf s x)"
  "index (vertexOf (computeEdgeCostAtVertex w s) x) = index (vertexOf s x)"
  "position (vertexOf (computeEdgeCostAtVertex w s) x) = position (vertexOf s x)"
  by (simp_all add: computeEdgeCostAtVertex_def Let_def split: prod.splits)

lemma reinsertVertex_frame:
  assumes "reinsertVertex w s = Inr s'"
  shows "faceOf s' = faceOf s" "arrFaces s' = arrFaces s" "arrVertices s' = arrVertices s"
    "faces (vertexOf s' x) = faces (vertexOf s x)"
    "neighbors (vertexOf s' x) = neighbors (vertexOf s x)"
    "index (vertexOf s' x) = index (vertexOf s x)"
    "position (vertexOf s' x) = position (vertexOf s x)"
  using assms by (auto simp: reinsertVertex_def Let_def split: sum.splits)

lemma reinsertAll_frame:
  assumes "reinsertAll ws s = Inr s'"
  shows "faceOf s' = faceOf s \<and> arrFaces s' = arrFaces s \<and> arrVertices s' = arrVertices s \<and>
    faces (vertexOf s' x) = faces (vertexOf s x) \<and>
    neighbors (vertexOf s' x) = neighbors (vertexOf s x) \<and>
    index (vertexOf s' x) = index (vertexOf s x) \<and>
    position (vertexOf s' x) = position (vertexOf s x)"
  using assms
proof (induction ws arbitrary: s)
  case Nil
  then show ?case by simp
next
  case (Cons w ws)
  then obtain s1 where s1: "reinsertVertex w s = Inr s1" and rest: "reinsertAll ws s1 = Inr s'"
    by (auto split: sum.splits)
  from Cons.IH [OF rest] reinsertVertex_frame [OF s1] show ?case by simp
qed

lemma moveFaces_frame:
  assumes "moveFaces n u v s = Inr s'"
  shows "arrFaces s' = arrFaces s \<and> arrVertices s' = arrVertices s \<and>
    arrVerticesByCost s' = arrVerticesByCost s \<and>
    index (vertexOf s' x) = index (vertexOf s x) \<and>
    position (vertexOf s' x) = position (vertexOf s x) \<and>
    collapseCost (vertexOf s' x) = collapseCost (vertexOf s x) \<and>
    collapseNeighbor (vertexOf s' x) = collapseNeighbor (vertexOf s x)"
  using assms
proof (induction n arbitrary: s)
  case 0
  then show ?case by simp
next
  case (Suc n)
  then have "moveFaces n u v (moveFace n u v s) = Inr s'" by (simp split: if_splits)
  from Suc.IH [OF this] show ?case by simp
qed

lemma collapseStep_Inr:
  assumes "collapseStep s = Inr s'"
  obtains (isolated) i0 rest u where "arrVerticesByCost s = i0 # rest" "lookupVertex s i0 = Some u"
      "collapseNeighbor (vertexOf s u) = None" "s' = removeVertex u s"
  | (edge) i0 rest u v s2 where "arrVerticesByCost s = i0 # rest" "lookupVertex s i0 = Some u"
      "collapseNeighbor (vertexOf s u) = Some v"
      "moveFaces (length (faces (vertexOf (deleteEdgeFaces (length (faces (vertexOf s u))) u v s) u))) u v
         (deleteEdgeFaces (length (faces (vertexOf s u))) u v s) = Inr s2"
      "reinsertAll (neighbors (vertexOf s u)) (removeVertex u s2) = Inr s'"
proof (cases "arrVerticesByCost s")
  case Nil
  with assms show ?thesis by (simp only: collapseStep_def list.case sum.distinct)
next
  case (Cons i0 rest)
  note c1 = this
  show ?thesis
  proof (cases "lookupVertex s i0")
    case None
    with assms c1 show ?thesis by (simp only: collapseStep_def list.case option.case sum.distinct)
  next
    case (Some u)
    note c2 = this
    show ?thesis
    proof (cases "collapseNeighbor (vertexOf s u)")
      case None
      with assms c1 c2 have "s' = removeVertex u s"
        by (simp only: collapseStep_def list.case option.case sum.inject)
      with c1 c2 None show ?thesis by (rule isolated)
    next
      case (Some v)
      note c3 = this
      let ?s1 = "deleteEdgeFaces (length (faces (vertexOf s u))) u v s"
      show ?thesis
      proof (cases "moveFaces (length (faces (vertexOf ?s1 u))) u v ?s1")
        case (Inl e)
        with assms c1 c2 c3 show ?thesis
          by (simp only: collapseStep_def list.case option.case Let_def sum.case sum.distinct)
      next
        case (Inr s2)
        with assms c1 c2 c3 have "reinsertAll (neighbors (vertexOf s u)) (removeVertex u s2) = Inr s'"
          by (simp only: collapseStep_def list.case option.case Let_def sum.case)
        with c1 c2 c3 Inr show ?thesis by (rule edge)
      qed
    qed
  qed
qed

section \<open>Every iteration removes one vertex\<close>

lemma indexed_frame:
  assumes "indexed s" "arrVertices s' = arrVertices s"
    "\<And>x. index (vertexOf s' x) = index (vertexOf s x)"
  shows "indexed s'"
  using assms by (simp add: indexed_def)

lemma lookupVertex_Some: "lookupVertex s i = Some u \<Longrightarrow> i < length (arrVertices s) \<and> arrVertices s ! i = u"
  by (auto simp: lookupVertex_def split: if_splits)

lemma collapseStep_indexed:
  assumes ok: "indexed s" and step: "collapseStep s = Inr s'"
  shows "indexed s' \<and> length (arrVertices s') + 1 = length (arrVertices s)"
  using step
proof (cases rule: collapseStep_Inr)
  case (isolated i0 rest u)
  from lookupVertex_Some [OF isolated(2)] have i0: "i0 < length (arrVertices s)" and ui: "arrVertices s ! i0 = u"
    by simp_all
  from removeVertex_indexed [OF ok i0 ui] isolated(4) show ?thesis by simp
next
  case (edge i0 rest u v s2)
  from lookupVertex_Some [OF edge(2)] have i0: "i0 < length (arrVertices s)" and ui: "arrVertices s ! i0 = u"
    by simp_all
  have a2: "arrVertices s2 = arrVertices s" and x2: "\<And>x. index (vertexOf s2 x) = index (vertexOf s x)"
    using moveFaces_frame [OF edge(4)] by simp_all
  from ok a2 x2 have ok2: "indexed s2" by (rule indexed_frame)
  from i0 ui a2 have "i0 < length (arrVertices s2)" "arrVertices s2 ! i0 = u" by simp_all
  from removeVertex_indexed [OF ok2 this]
  have ok3: "indexed (removeVertex u s2)"
    and len: "length (arrVertices (removeVertex u s2)) + 1 = length (arrVertices s)"
    using a2 by simp_all
  from reinsertAll_frame [OF edge(5)]
  have a': "arrVertices s' = arrVertices (removeVertex u s2)"
    and x': "\<And>x. index (vertexOf s' x) = index (vertexOf (removeVertex u s2) x)"
    by simp_all
  from ok3 a' x' have "indexed s'" by (rule indexed_frame)
  with len a' show ?thesis by simp
qed


lemma collapseLoop_indexed:
  "indexed s \<Longrightarrow> collapseLoop n s = Inr s' \<Longrightarrow>
   indexed s' \<and> length (arrVertices s') + n = length (arrVertices s)"
proof (induction n arbitrary: s)
  case 0
  then show ?case by simp
next
  case (Suc n)
  from Suc.prems(2) obtain s1 where s1: "collapseStep s = Inr s1" and rest: "collapseLoop n s1 = Inr s'"
    by (cases "collapseStep s") simp_all
  from collapseStep_indexed [OF Suc.prems(1) s1] Suc.IH [OF _ rest] show ?case by simp
qed

section \<open>No rewrite produces a face with a repeated vertex\<close>

lemma replaceVertex_threeCorners:
  assumes "threeCorners r" "hasVertex r u \<longrightarrow> \<not> hasVertex r v"
  shows "threeCorners (replaceVertex u v r)"
  using assms by (auto simp: threeCorners_def replaceVertex_def hasVertex_def)

lemma replaceVertex_no_u:
  assumes "threeCorners r" "hasVertex r u \<longrightarrow> \<not> hasVertex r v"
  shows "\<not> hasVertex (replaceVertex u v r) u"
  using assms by (auto simp: threeCorners_def replaceVertex_def hasVertex_def)

lemma threeCorners_moveFace:
  "threeCorners (faceOf (moveFace i u v s) t) =
     threeCorners (if t = faces (vertexOf s u) ! i then replaceVertex u v (faceOf s t) else faceOf s t)"
  by (simp add: threeCorners_def moveFace_corners)

lemma set_splice1: "set (splice1 i xs) \<subseteq> set xs"
  using set_take_subset [of i xs] set_drop_subset [of "Suc i" xs] by (auto simp: splice1_def)

lemma moveFace_keeps:
  assumes tc: "\<forall>t \<in> set (arrFaces s). threeCorners (faceOf s t)"
    and off: "\<forall>t \<in> set (faces (vertexOf s u)). offEdge s u v t"
    and i: "i < length (faces (vertexOf s u))"
  shows "(\<forall>t \<in> set (arrFaces (moveFace i u v s)). threeCorners (faceOf (moveFace i u v s) t)) \<and>
         (\<forall>t \<in> set (faces (vertexOf (moveFace i u v s) u)). offEdge (moveFace i u v s) u v t)"
proof -
  let ?f = "faces (vertexOf s u) ! i"
  let ?s' = "moveFace i u v s"
  from i have fin: "?f \<in> set (faces (vertexOf s u))" by simp
  have safe: "hasVertex (faceOf s ?f) u \<longrightarrow> \<not> hasVertex (faceOf s ?f) v" if "?f \<in> set (arrFaces s)"
    using off fin that by (auto simp: offEdge_def)
  have one: "threeCorners (faceOf ?s' t)" if t: "t \<in> set (arrFaces s)" for t
  proof (cases "t = ?f")
    case True
    with t tc safe have "threeCorners (replaceVertex u v (faceOf s t))"
      by (intro replaceVertex_threeCorners) auto
    with True show ?thesis by (simp add: threeCorners_moveFace)
  next
    case False
    with t tc show ?thesis by (simp add: threeCorners_moveFace)
  qed
  have two: "offEdge ?s' u v t" if t: "t \<in> set (faces (vertexOf ?s' u))" for t
  proof (cases "t = ?f")
    case True
    show ?thesis
    proof (cases "?f \<in> set (arrFaces s)")
      case inF: True
      with tc safe have "\<not> hasVertex (replaceVertex u v (faceOf s ?f)) u"
        by (intro replaceVertex_no_u) auto
      with True show ?thesis by (simp add: offEdge_def moveFace_hasVertex)
    next
      case False
      with True show ?thesis by (simp add: offEdge_def)
    qed
  next
    case False
    with t have "t \<in> set (faces (vertexOf s u))"
      using set_splice1 [of i "faces (vertexOf s u)"] by (auto simp: moveFace_faces split: if_splits)
    with off have "offEdge s u v t" by simp
    with False show ?thesis by (simp add: offEdge_def moveFace_hasVertex)
  qed
  from one two show ?thesis by simp
qed

lemma moveFaces_keeps:
  assumes "\<forall>t \<in> set (arrFaces s). threeCorners (faceOf s t)"
    and "\<forall>t \<in> set (faces (vertexOf s u)). offEdge s u v t"
    and "moveFaces n u v s = Inr s'"
  shows "\<forall>t \<in> set (arrFaces s'). threeCorners (faceOf s' t)"
  using assms
proof (induction n arbitrary: s)
  case 0
  then show ?case by simp
next
  case (Suc n)
  then have i: "n < length (faces (vertexOf s u))"
    and rest: "moveFaces n u v (moveFace n u v s) = Inr s'"
    by (simp_all split: if_splits)
  from moveFace_keeps [OF Suc.prems(1) Suc.prems(2) i] Suc.IH [OF _ _ rest]
  show ?case by blast
qed

lemma collapseStep_threeCorners:
  assumes tc: "\<forall>t \<in> set (arrFaces s). threeCorners (faceOf s t)"
    and step: "collapseStep s = Inr s'"
  shows "\<forall>t \<in> set (arrFaces s'). threeCorners (faceOf s' t)"
  using step
proof (cases rule: collapseStep_Inr)
  case (isolated i0 rest u)
  from tc isolated(4) show ?thesis by simp
next
  case (edge i0 rest u v s2)
  let ?s1 = "deleteEdgeFaces (length (faces (vertexOf s u))) u v s"
  have tc1: "\<forall>t \<in> set (arrFaces ?s1). threeCorners (faceOf ?s1 t)"
    using tc deleteEdgeFaces_arrFaces [of "length (faces (vertexOf s u))" u v s] by auto
  have off1: "\<forall>t \<in> set (faces (vertexOf ?s1 u)). offEdge ?s1 u v t"
    by (rule deleteEdgeFaces_offEdge) simp
  from moveFaces_keeps [OF tc1 off1 edge(4)]
  have "\<forall>t \<in> set (arrFaces s2). threeCorners (faceOf s2 t)" .
  with reinsertAll_frame [OF edge(5)] show ?thesis by simp
qed

text \<open>The same, face by face, with no assumption about the other faces.\<close>

lemma moveFace_keeps_face:
  assumes inv: "\<forall>t \<in> set (arrFaces s). G t \<longrightarrow>
        threeCorners (faceOf s t) \<and> (t \<in> set (faces (vertexOf s u)) \<longrightarrow> offEdge s u v t)"
    and i: "i < length (faces (vertexOf s u))"
  shows "\<forall>t \<in> set (arrFaces (moveFace i u v s)). G t \<longrightarrow>
        threeCorners (faceOf (moveFace i u v s) t) \<and>
        (t \<in> set (faces (vertexOf (moveFace i u v s) u)) \<longrightarrow> offEdge (moveFace i u v s) u v t)"
proof (intro ballI impI)
  fix t
  let ?f = "faces (vertexOf s u) ! i"
  let ?s' = "moveFace i u v s"
  assume "t \<in> set (arrFaces ?s')" and g: "G t"
  then have t: "t \<in> set (arrFaces s)" by simp
  from inv t g have tc: "threeCorners (faceOf s t)"
    and off: "t \<in> set (faces (vertexOf s u)) \<Longrightarrow> offEdge s u v t" by blast+
  from i have fin: "?f \<in> set (faces (vertexOf s u))" by simp
  show "threeCorners (faceOf ?s' t) \<and> (t \<in> set (faces (vertexOf ?s' u)) \<longrightarrow> offEdge ?s' u v t)"
  proof (cases "t = ?f")
    case True
    with off fin t have safe: "hasVertex (faceOf s t) u \<longrightarrow> \<not> hasVertex (faceOf s t) v"
      by (auto simp: offEdge_def)
    from tc safe have "threeCorners (replaceVertex u v (faceOf s t))"
      by (rule replaceVertex_threeCorners)
    moreover from tc safe have "\<not> hasVertex (replaceVertex u v (faceOf s t)) u"
      by (rule replaceVertex_no_u)
    ultimately show ?thesis using True by (simp add: threeCorners_moveFace offEdge_def moveFace_hasVertex)
  next
    case False
    have "offEdge ?s' u v t" if "t \<in> set (faces (vertexOf ?s' u))"
    proof -
      from that False have "t \<in> set (faces (vertexOf s u))"
        using set_splice1 [of i "faces (vertexOf s u)"] by (auto simp: moveFace_faces split: if_splits)
      then have "offEdge s u v t" by (rule off)
      with False show ?thesis by (simp add: offEdge_def moveFace_hasVertex)
    qed
    with False tc show ?thesis by (simp add: threeCorners_moveFace)
  qed
qed

lemma moveFaces_keeps_face:
  assumes "\<forall>t \<in> set (arrFaces s). G t \<longrightarrow>
        threeCorners (faceOf s t) \<and> (t \<in> set (faces (vertexOf s u)) \<longrightarrow> offEdge s u v t)"
    and "moveFaces n u v s = Inr s'"
  shows "\<forall>t \<in> set (arrFaces s'). G t \<longrightarrow> threeCorners (faceOf s' t)"
  using assms
proof (induction n arbitrary: s)
  case 0
  then show ?case by simp
next
  case (Suc n)
  then have i: "n < length (faces (vertexOf s u))"
    and rest: "moveFaces n u v (moveFace n u v s) = Inr s'"
    by (simp_all split: if_splits)
  from Suc.IH [OF moveFace_keeps_face [OF Suc.prems(1) i] rest] show ?case .
qed

lemma collapseStep_keeps_face:
  assumes step: "collapseStep s = Inr s'" and t: "t \<in> set (arrFaces s')"
  shows "t \<in> set (arrFaces s) \<and> (threeCorners (faceOf s t) \<longrightarrow> threeCorners (faceOf s' t))"
  using step
proof (cases rule: collapseStep_Inr)
  case (isolated i0 rest u)
  with t show ?thesis by simp
next
  case (edge i0 rest u v s2)
  let ?s1 = "deleteEdgeFaces (length (faces (vertexOf s u))) u v s"
  have sub: "set (arrFaces ?s1) \<subseteq> set (arrFaces s)" by (rule deleteEdgeFaces_arrFaces)
  have off1: "\<forall>t \<in> set (faces (vertexOf ?s1 u)). offEdge ?s1 u v t"
    by (rule deleteEdgeFaces_offEdge) simp
  have inv1: "\<forall>t \<in> set (arrFaces ?s1). threeCorners (faceOf s t) \<longrightarrow>
        threeCorners (faceOf ?s1 t) \<and> (t \<in> set (faces (vertexOf ?s1 u)) \<longrightarrow> offEdge ?s1 u v t)"
    using off1 by simp
  from moveFaces_keeps_face [OF inv1 edge(4)]
  have keep: "\<forall>t \<in> set (arrFaces s2). threeCorners (faceOf s t) \<longrightarrow> threeCorners (faceOf s2 t)" .
  from reinsertAll_frame [OF edge(5)] have f: "faceOf s' = faceOf s2" and a: "arrFaces s' = arrFaces s2"
    by simp_all
  from moveFaces_frame [OF edge(4)] have a2: "arrFaces s2 = arrFaces ?s1" by simp
  from t a a2 sub have "t \<in> set (arrFaces s)" by auto
  moreover from t a keep f have "threeCorners (faceOf s t) \<longrightarrow> threeCorners (faceOf s' t)" by simp
  ultimately show ?thesis by blast
qed

lemma collapseLoop_keeps_face:
  assumes "collapseLoop n s = Inr s'" and "t \<in> set (arrFaces s')"
  shows "t \<in> set (arrFaces s) \<and> (threeCorners (faceOf s t) \<longrightarrow> threeCorners (faceOf s' t))"
  using assms
proof (induction n arbitrary: s)
  case 0
  then show ?case by simp
next
  case (Suc n)
  from Suc.prems(1) obtain s1 where s1: "collapseStep s = Inr s1"
    and rest: "collapseLoop n s1 = Inr s'"
    by (cases "collapseStep s") simp_all
  from Suc.IH [OF rest Suc.prems(2)] have t1: "t \<in> set (arrFaces s1)"
    and k1: "threeCorners (faceOf s1 t) \<longrightarrow> threeCorners (faceOf s' t)" by blast+
  from collapseStep_keeps_face [OF s1 t1] k1 show ?case by blast
qed

section \<open>Populate builds an indexed graph\<close>

lemma newTriangle_frame [simp]:
  "arrFaces (newTriangle t a b c s) = arrFaces s"
  "arrVertices (newTriangle t a b c s) = arrVertices s"
  "arrVerticesByCost (newTriangle t a b c s) = arrVerticesByCost s"
  "index (vertexOf (newTriangle t a b c s) x) = index (vertexOf s x)"
  "position (vertexOf (newTriangle t a b c s) x) = position (vertexOf s x)"
  by (simp_all add: newTriangle_def Let_def)

lemma addTriangles_frame:
  "addTriangles ts s = Inr s' \<Longrightarrow>
   arrVertices s' = arrVertices s \<and> index (vertexOf s' x) = index (vertexOf s x)"
proof (induction ts arbitrary: s)
  case Nil
  then show ?case by simp
next
  case (Cons tr ts)
  obtain a b c where tr: "tr = (a, b, c)" by (cases tr)
  from Cons.prems tr obtain va vb vc where
    "addTriangles ts ((newTriangle (length (arrFaces s)) va vb vc s)
        \<lparr>arrFaces := arrFaces (newTriangle (length (arrFaces s)) va vb vc s) @ [length (arrFaces s)]\<rparr>) = Inr s'"
    by (simp add: Let_def split: option.splits)
  from Cons.IH [OF this] show ?case by simp
qed

lemma fold_cost_frame [simp]:
  "arrVertices (fold computeEdgeCostAtVertex ws s) = arrVertices s"
  "index (vertexOf (fold computeEdgeCostAtVertex ws s) x) = index (vertexOf s x)"
  by (induction ws arbitrary: s; simp)+

lemma computeHash_frame [simp]:
  "vertexOf (computeHash t s) = vertexOf s"
  "arrFaces (computeHash t s) = arrFaces s"
  "arrVertices (computeHash t s) = arrVertices s"
  "arrVerticesByCost (computeHash t s) = arrVerticesByCost s"
  by (simp_all add: computeHash_def Let_def)

lemma fold_computeHash_frame [simp]:
  "vertexOf (fold computeHash ts s) = vertexOf s"
  "arrFaces (fold computeHash ts s) = arrFaces s"
  "arrVertices (fold computeHash ts s) = arrVertices s"
  "arrVerticesByCost (fold computeHash ts s) = arrVerticesByCost s"
  by (induction ts arbitrary: s; simp)+

lemma emptyMesh_indexed: "indexed (emptyMesh ps)"
  by (simp add: indexed_def emptyMesh_def newVertex_def)

lemma populate_indexed:
  assumes "populateFromGeometry ps ts = Inr s"
  shows "indexed s \<and> length (arrVertices s) = length ps"
proof -
  from assms obtain s1 where s1: "addTriangles ts (emptyMesh ps) = Inr s1"
    by (cases "addTriangles ts (emptyMesh ps)") (simp_all add: populateFromGeometry_def)
  from addTriangles_frame [OF s1]
  have a1: "arrVertices s1 = arrVertices (emptyMesh ps)"
    and x1: "\<And>x. index (vertexOf s1 x) = index (vertexOf (emptyMesh ps) x)"
    by simp_all
  from emptyMesh_indexed a1 x1 have ok1: "indexed s1" by (rule indexed_frame)
  from assms s1 have a: "arrVertices s = arrVertices s1"
    and x: "\<And>x. index (vertexOf s x) = index (vertexOf s1 x)"
    by (auto simp: populateFromGeometry_def Let_def computeFaceHashes_def)
  from ok1 a x have "indexed s" by (rule indexed_frame)
  moreover have "length (arrVertices s) = length ps" using a a1 by (simp add: emptyMesh_def)
  ultimately show ?thesis by blast
qed

lemma loopCount_within: "0 \<le> k \<Longrightarrow> k \<le> int n \<Longrightarrow> loopCount n k = nat k"
  by (simp add: loopCount_def Let_def)

lemma loopCount_above: "int n < k \<Longrightarrow> loopCount n k = (n + 1) div 2"
proof -
  assume "int n < k"
  then have "loopCount n k = nat \<lceil>real n / 2\<rceil>" by (simp add: loopCount_def Let_def)
  also have "\<lceil>real n / 2\<rceil> = int ((n + 1) div 2)"
    by (rule ceiling_unique) (auto simp: field_simps; presburger)+
  finally show ?thesis by simp
qed


section \<open>Runs of the decimator on the example meshes\<close>

lemmas frame_simps =
  updVertex_frame updFace_frame addUniqueNeighbor_frame removeIfNonNeighbor_frame pushFace_frame
  dropFace_frame removeNonNeighbors_frame removeFace_frame deleteEdgeFaces_frame
  unlinkFromFace_frame linkFace_frame moveFace_frame purgeNeighbors_frame setIndex_frame
  fold_setIndex_frame removeVertex_frame computeEdgeCostAtVertex_frame newTriangle_frame
  fold_cost_frame computeHash_frame fold_computeHash_frame

lemmas eval_defs =
  modify_def costsInOrder_def currentHash_def populate_defs collapse_defs array_defs vector_defs
  Let_def eval_nat_numeral

text \<open>
  The fan is populated and two iterations of the loop of \<open>collapse\<close> are run; the
  observations of the three states are used below.
\<close>

lemma fan_run:
  "case populateFromGeometry fanPositions fanTriangles of
     Inl e \<Rightarrow> False
   | Inr s0 \<Rightarrow>
       arrVertices s0 = [0, 1, 2, 3] \<and> arrFaces s0 = [0, 1, 2] \<and>
       list_all (\<lambda>t. threeCorners (faceOf s0 t)) (arrFaces s0) \<and>
       (case collapseStep s0 of
          Inl e \<Rightarrow> False
        | Inr s1 \<Rightarrow>
            arrVertices s1 = [1, 2, 3] \<and> arrVerticesByCost s1 = [2, 1, 0] \<and>
            costsInOrder s1 = [4, 9 / 2, 7 / 2] \<and> arrFaces s1 = [2] \<and>
            hash (faceOf s1 2) = ''0,2,3'' \<and> currentHash s1 2 = ''0,1,2'' \<and>
            list_all (\<lambda>t. threeCorners (faceOf s1 t)) (arrFaces s1) \<and>
            (case collapseStep s1 of
               Inl e \<Rightarrow> False
             | Inr s2 \<Rightarrow> length (arrVertices s2) = 2))"
  by (simp add: eval_defs threeCorners_def fanPositions_def fanTriangles_def
        del: frame_simps cong: let_weak_cong)


lemma case_sum_InrD: "(case x of Inl e \<Rightarrow> False | Inr s \<Rightarrow> P s) \<Longrightarrow> \<exists>s. x = Inr s \<and> P s"
  by (cases x) simp_all

lemma fan_states:
  obtains s0 s1 s2 where
    "populateFromGeometry fanPositions fanTriangles = Inr s0"
    "arrVertices s0 = [0, 1, 2, 3]" "arrFaces s0 = [0, 1, 2]"
    "list_all (\<lambda>t. threeCorners (faceOf s0 t)) (arrFaces s0)"
    "collapseStep s0 = Inr s1"
    "arrVertices s1 = [1, 2, 3]" "arrVerticesByCost s1 = [2, 1, 0]"
    "costsInOrder s1 = [4, 9 / 2, 7 / 2]" "arrFaces s1 = [2]"
    "hash (faceOf s1 2) = ''0,2,3''" "currentHash s1 2 = ''0,1,2''"
    "list_all (\<lambda>t. threeCorners (faceOf s1 t)) (arrFaces s1)"
    "collapseStep s1 = Inr s2" "length (arrVertices s2) = 2"
proof -
  from fan_run [THEN case_sum_InrD] obtain s0 where
    p: "populateFromGeometry fanPositions fanTriangles = Inr s0"
    and a0: "arrVertices s0 = [0, 1, 2, 3]" "arrFaces s0 = [0, 1, 2]"
       "list_all (\<lambda>t. threeCorners (faceOf s0 t)) (arrFaces s0)"
    and r0: "case collapseStep s0 of
          Inl e \<Rightarrow> False
        | Inr s1 \<Rightarrow>
            arrVertices s1 = [1, 2, 3] \<and> arrVerticesByCost s1 = [2, 1, 0] \<and>
            costsInOrder s1 = [4, 9 / 2, 7 / 2] \<and> arrFaces s1 = [2] \<and>
            hash (faceOf s1 2) = ''0,2,3'' \<and> currentHash s1 2 = ''0,1,2'' \<and>
            list_all (\<lambda>t. threeCorners (faceOf s1 t)) (arrFaces s1) \<and>
            (case collapseStep s1 of
               Inl e \<Rightarrow> False
             | Inr s2 \<Rightarrow> length (arrVertices s2) = 2)"
    by blast
  from r0 [THEN case_sum_InrD] obtain s1 where
    q: "collapseStep s0 = Inr s1"
    and a1: "arrVertices s1 = [1, 2, 3]" "arrVerticesByCost s1 = [2, 1, 0]"
       "costsInOrder s1 = [4, 9 / 2, 7 / 2]" "arrFaces s1 = [2]"
       "hash (faceOf s1 2) = ''0,2,3''" "currentHash s1 2 = ''0,1,2''"
       "list_all (\<lambda>t. threeCorners (faceOf s1 t)) (arrFaces s1)"
    and r1: "case collapseStep s1 of
               Inl e \<Rightarrow> False
             | Inr s2 \<Rightarrow> length (arrVertices s2) = 2"
    by blast
  from r1 [THEN case_sum_InrD] obtain s2 where
    t: "collapseStep s1 = Inr s2" and a2: "length (arrVertices s2) = 2"
    by blast
  from p a0 q a1 t a2 show ?thesis by (rule that)
qed

lemma fanMesh_populated:
  "populateFromGeometry fanPositions fanTriangles = Inr fanMesh"
proof -
  obtain s0 where "populateFromGeometry fanPositions fanTriangles = Inr s0"
    by (rule fan_states)
  then show ?thesis by (simp add: fanMesh_def)
qed

lemma collapse_1: "0 < length (arrVertices s) \<Longrightarrow> collapse 1 s = collapseStep s"
  by (cases "collapseStep s") (simp_all add: collapse_def loopCount_def)

lemma fan_collapse_1:
  obtains s1 where "modify fanPositions fanTriangles 1 = Inr s1"
    "arrVerticesByCost s1 = [2, 1, 0]" "costsInOrder s1 = [4, 9 / 2, 7 / 2]" "arrFaces s1 = [2]"
    "hash (faceOf s1 2) = ''0,2,3''" "currentHash s1 2 = ''0,1,2''"
proof -
  obtain s0 s1 where f: "populateFromGeometry fanPositions fanTriangles = Inr s0"
    "arrVertices s0 = [0, 1, 2, 3]" "collapseStep s0 = Inr s1"
    "arrVerticesByCost s1 = [2, 1, 0]"
    "costsInOrder s1 = [4, 9 / 2, 7 / 2]" "arrFaces s1 = [2]"
    "hash (faceOf s1 2) = ''0,2,3''" "currentHash s1 2 = ''0,1,2''"
    by (rule fan_states)
  from f(2) have "collapse 1 s0 = collapseStep s0" by (intro collapse_1) simp
  with f(1,3) have "modify fanPositions fanTriangles 1 = Inr s1" by (simp add: modify_def)
  with f that show ?thesis by blast
qed

lemma fan_costs_unsorted: "\<not> sorted [4, 9 / 2, 7 / (2::real)]"
proof
  assume "sorted [4, 9 / 2, 7 / (2::real)]"
  then have "[4, 9 / 2, 7 / (2::real)] ! 0 \<le> [4, 9 / 2, 7 / (2::real)] ! 2"
    by (rule sorted_nth_mono) simp_all
  then show False by simp
qed

text \<open>
  C3. On the fan, one iteration of \<open>collapse\<close> removes vertex 0 and re-inserts its three
  former neighbours. The binary search never returns the position after the last
  element, so the array ends as [2, 1, 0] with stored costs 4, 9/2 and 7/2: it is not
  sorted, and the next iteration pops the vertex of cost 4 although one of cost 7/2 is
  in the array.
\<close>

theorem C3_cost_order_broken:
  "case modify fanPositions fanTriangles 1 of
     Inl e \<Rightarrow> False
   | Inr s \<Rightarrow> arrVerticesByCost s = [2, 1, 0] \<and> costsInOrder s = [4, 9 / 2, 7 / 2] \<and>
       \<not> sorted (costsInOrder s) \<and> Min (set (costsInOrder s)) < hd (costsInOrder s)"
proof -
  obtain s1 where "modify fanPositions fanTriangles 1 = Inr s1"
    "arrVerticesByCost s1 = [2, 1, 0]" "costsInOrder s1 = [4, 9 / 2, 7 / 2]"
    by (rule fan_collapse_1)
  with fan_costs_unsorted show ?thesis by (simp del: sorted_simps)
qed

text \<open>
  C5. On the fan, after \<open>collapse( 1 )\<close> the surviving face still carries the hash
  "0,2,3" computed when the graph was populated, while its three vertices now have the
  indices 0, 1 and 2: \<open>collapse\<close> ends without calling \<open>computeFaceHashes\<close>.
\<close>

theorem C5_hashes_not_recomputed:
  "case modify fanPositions fanTriangles 1 of
     Inl e \<Rightarrow> False
   | Inr s \<Rightarrow> arrFaces s = [2] \<and> hash (faceOf s 2) = ''0,2,3'' \<and>
       currentHash s 2 = ''0,1,2'' \<and> hash (faceOf s 2) \<noteq> currentHash s 2"
proof -
  obtain s1 where "modify fanPositions fanTriangles 1 = Inr s1" "arrFaces s1 = [2]"
    "hash (faceOf s1 2) = ''0,2,3''" "currentHash s1 2 = ''0,1,2''"
    by (rule fan_collapse_1)
  then show ?thesis by simp
qed

text \<open>
  C8, as stated, fails: \<open>populateFromGeometry\<close> keeps a triangle that names a vertex
  twice. On the kite, the first iteration of \<open>collapse\<close> collapses vertex 0 onto vertex 1
  and completes; the surviving face is the one built from (3, 4, 4), whose second and
  third vertices are the same.
\<close>

theorem C8_counterexample:
  "case populateFromGeometry kitePositions kiteTriangles of
     Inl e \<Rightarrow> False
   | Inr s \<Rightarrow>
       arrFaces s = [0, 1] \<and>
       (case collapseStep s of
          Inl e \<Rightarrow> False
        | Inr s1 \<Rightarrow> length (arrVertices s1) = 4 \<and> arrFaces s1 = [1] \<and>
            v1 (faceOf s1 1) = 3 \<and> v2 (faceOf s1 1) = 4 \<and> v3 (faceOf s1 1) = 4 \<and>
            v2 (faceOf s1 1) = v3 (faceOf s1 1))"
  by (simp add: eval_defs kitePositions_def kiteTriangles_def del: frame_simps cong: let_weak_cong)

text \<open>
  C8, amended. No iteration produces a face with a repeated vertex: a face that is in
  \<open>arrFaces\<close> after an iteration of the loop of \<open>collapse\<close> (or after any number of them)
  was there before, and if its three vertices were mutually distinct before, they are
  after. Nothing is assumed about the other faces. The reason is the one the claim
  gives: when the first inner loop is over, no face of \<open>u\<close> that is still in \<open>arrFaces\<close>
  contains both \<open>u\<close> and \<open>v\<close>, so replacing \<open>u\<close> by \<open>v\<close> repeats no vertex.
\<close>

theorem C8_three_corners_kept:
  "(collapseStep s = Inr s' \<and> t \<in> set (arrFaces s') \<and>
      v1 (faceOf s t) \<noteq> v2 (faceOf s t) \<and> v2 (faceOf s t) \<noteq> v3 (faceOf s t) \<and>
      v1 (faceOf s t) \<noteq> v3 (faceOf s t) \<longrightarrow>
        t \<in> set (arrFaces s) \<and>
        v1 (faceOf s' t) \<noteq> v2 (faceOf s' t) \<and> v2 (faceOf s' t) \<noteq> v3 (faceOf s' t) \<and>
        v1 (faceOf s' t) \<noteq> v3 (faceOf s' t)) \<and>
   (collapseLoop n s = Inr s'' \<and> t \<in> set (arrFaces s'') \<and>
      v1 (faceOf s t) \<noteq> v2 (faceOf s t) \<and> v2 (faceOf s t) \<noteq> v3 (faceOf s t) \<and>
      v1 (faceOf s t) \<noteq> v3 (faceOf s t) \<longrightarrow>
        t \<in> set (arrFaces s) \<and>
        v1 (faceOf s'' t) \<noteq> v2 (faceOf s'' t) \<and> v2 (faceOf s'' t) \<noteq> v3 (faceOf s'' t) \<and>
        v1 (faceOf s'' t) \<noteq> v3 (faceOf s'' t)) \<and>
   (\<forall>f \<in> set (faces (vertexOf (deleteEdgeFaces (length (faces (vertexOf s u))) u v s) u)).
      \<not> (f \<in> set (arrFaces (deleteEdgeFaces (length (faces (vertexOf s u))) u v s)) \<and>
         (u = v1 (faceOf s f) \<or> u = v2 (faceOf s f) \<or> u = v3 (faceOf s f)) \<and>
         (v = v1 (faceOf s f) \<or> v = v2 (faceOf s f) \<or> v = v3 (faceOf s f))))"
proof (intro conjI impI)
  assume a: "collapseStep s = Inr s' \<and> t \<in> set (arrFaces s') \<and>
      v1 (faceOf s t) \<noteq> v2 (faceOf s t) \<and> v2 (faceOf s t) \<noteq> v3 (faceOf s t) \<and>
      v1 (faceOf s t) \<noteq> v3 (faceOf s t)"
  then have step: "collapseStep s = Inr s'" and t: "t \<in> set (arrFaces s')"
    and tc: "threeCorners (faceOf s t)" by (simp_all add: threeCorners_def)
  from collapseStep_keeps_face [OF step t] tc
  have r: "t \<in> set (arrFaces s) \<and> threeCorners (faceOf s' t)" by blast
  from r show "t \<in> set (arrFaces s)" by blast
  from r show "v1 (faceOf s' t) \<noteq> v2 (faceOf s' t)" by (simp add: threeCorners_def)
  from r show "v2 (faceOf s' t) \<noteq> v3 (faceOf s' t)" by (simp add: threeCorners_def)
  from r show "v1 (faceOf s' t) \<noteq> v3 (faceOf s' t)" by (simp add: threeCorners_def)
next
  assume a: "collapseLoop n s = Inr s'' \<and> t \<in> set (arrFaces s'') \<and>
      v1 (faceOf s t) \<noteq> v2 (faceOf s t) \<and> v2 (faceOf s t) \<noteq> v3 (faceOf s t) \<and>
      v1 (faceOf s t) \<noteq> v3 (faceOf s t)"
  then have run: "collapseLoop n s = Inr s''" and t: "t \<in> set (arrFaces s'')"
    and tc: "threeCorners (faceOf s t)" by (simp_all add: threeCorners_def)
  from collapseLoop_keeps_face [OF run t] tc
  have r: "t \<in> set (arrFaces s) \<and> threeCorners (faceOf s'' t)" by blast
  from r show "t \<in> set (arrFaces s)" by blast
  from r show "v1 (faceOf s'' t) \<noteq> v2 (faceOf s'' t)" by (simp add: threeCorners_def)
  from r show "v2 (faceOf s'' t) \<noteq> v3 (faceOf s'' t)" by (simp add: threeCorners_def)
  from r show "v1 (faceOf s'' t) \<noteq> v3 (faceOf s'' t)" by (simp add: threeCorners_def)
next
  let ?s1 = "deleteEdgeFaces (length (faces (vertexOf s u))) u v s"
  have "\<forall>f \<in> set (faces (vertexOf ?s1 u)). offEdge ?s1 u v f"
    by (rule deleteEdgeFaces_offEdge) simp
  then show "\<forall>f \<in> set (faces (vertexOf ?s1 u)).
      \<not> (f \<in> set (arrFaces ?s1) \<and>
         (u = v1 (faceOf s f) \<or> u = v2 (faceOf s f) \<or> u = v3 (faceOf s f)) \<and>
         (v = v1 (faceOf s f) \<or> v = v2 (faceOf s f) \<or> v = v3 (faceOf s f)))"
    by (simp add: offEdge_def hasVertex_def)
qed

text \<open>
  Witness for C8: the first iteration on the populated fan leaves face 2, whose three
  vertices are distinct before and after.
\<close>

theorem C8_three_corners_kept_witness:
  "\<exists>s'. collapseStep fanMesh = Inr s' \<and> 2 \<in> set (arrFaces s') \<and>
      v1 (faceOf fanMesh 2) \<noteq> v2 (faceOf fanMesh 2) \<and> v2 (faceOf fanMesh 2) \<noteq> v3 (faceOf fanMesh 2) \<and>
      v1 (faceOf fanMesh 2) \<noteq> v3 (faceOf fanMesh 2) \<and>
      2 \<in> set (arrFaces fanMesh) \<and>
      v1 (faceOf s' 2) \<noteq> v2 (faceOf s' 2) \<and> v2 (faceOf s' 2) \<noteq> v3 (faceOf s' 2) \<and>
      v1 (faceOf s' 2) \<noteq> v3 (faceOf s' 2)"
proof -
  obtain s0 s1 where f: "populateFromGeometry fanPositions fanTriangles = Inr s0"
    "arrFaces s0 = [0, 1, 2]"
    "list_all (\<lambda>t. threeCorners (faceOf s0 t)) (arrFaces s0)"
    "collapseStep s0 = Inr s1" "arrFaces s1 = [2]"
    by (rule fan_states)
  from f(1) have s0: "s0 = fanMesh" by (simp add: fanMesh_def)
  from f(2,3) have tc: "v1 (faceOf s0 2) \<noteq> v2 (faceOf s0 2) \<and> v2 (faceOf s0 2) \<noteq> v3 (faceOf s0 2) \<and>
      v1 (faceOf s0 2) \<noteq> v3 (faceOf s0 2)"
    by (simp add: threeCorners_def)
  from f(5) have t: "2 \<in> set (arrFaces s1)" by simp
  from C8_three_corners_kept [of s0 s1 2 0 s0 0 0] f(4) t tc
  have "2 \<in> set (arrFaces s0) \<and>
        v1 (faceOf s1 2) \<noteq> v2 (faceOf s1 2) \<and> v2 (faceOf s1 2) \<noteq> v3 (faceOf s1 2) \<and>
        v1 (faceOf s1 2) \<noteq> v3 (faceOf s1 2)" by blast
  with f(4) t tc s0 show ?thesis by blast
qed


text \<open>
  C1. The graph populated from two vertices and the triangle (0, 1, 1) has two vertices
  and one face. Vertex 1 is its own neighbour and its own collapse neighbour. The first
  iteration of \<open>collapse( 2 )\<close> removes it and then re-inserts it as one of its former
  neighbours: its stored index 1 is no longer in \<open>arrVerticesByCost\<close>, \<open>indexOf\<close> gives
  -1, and \<open>splice( -1, 1 )\<close> deletes the last entry, the index 0 of the vertex that is
  left, before the stale index 1 is inserted. The array is then [1], the second
  iteration reads \<open>arrVertices[ 1 ]\<close>, which is \<open>undefined\<close>, and the call ends with
  a \<open>TypeError\<close> after removing one vertex instead of two.
\<close>

theorem C1_repeated_vertex_crash:
  "case populateFromGeometry pairPositions pairTriangles of
     Inl e \<Rightarrow> False
   | Inr s \<Rightarrow> length (arrVertices s) = 2 \<and> length (arrFaces s) = 1 \<and>
       collapse 2 s = Inl TypeError \<and>
       (case collapseStep s of
          Inl e \<Rightarrow> False
        | Inr s1 \<Rightarrow> length (arrVertices s1) = 1 \<and> arrVerticesByCost s1 = [1] \<and>
            collapseStep s1 = Inl TypeError)"
  by (simp add: eval_defs pairPositions_def pairTriangles_def del: frame_simps cong: let_weak_cong)

text \<open>
  An iteration that completes on a populated graph removes exactly one vertex, and for
  0 <= k <= the vertex count a call \<open>collapse( k )\<close> that completes leaves the vertex
  count minus k vertices.
\<close>

lemma collapse_removes_k:
  assumes "populateFromGeometry ps ts = Inr s"
  shows "(collapseStep s = Inr s1 \<longrightarrow> length (arrVertices s1) + 1 = length (arrVertices s)) \<and>
         (0 \<le> k \<and> k \<le> int (length (arrVertices s)) \<and> collapse k s = Inr s' \<longrightarrow>
            int (length (arrVertices s')) = int (length (arrVertices s)) - k)"
proof -
  from populate_indexed [OF assms] have ok: "indexed s" by simp
  have one: "collapseStep s = Inr s1 \<longrightarrow> length (arrVertices s1) + 1 = length (arrVertices s)"
    using collapseStep_indexed [OF ok] by blast
  have all: "int (length (arrVertices s')) = int (length (arrVertices s)) - k"
    if k: "0 \<le> k" "k \<le> int (length (arrVertices s))" and run: "collapse k s = Inr s'"
  proof -
    from k have "loopCount (length (arrVertices s)) k = nat k" by (rule loopCount_within)
    with run have "collapseLoop (nat k) s = Inr s'" by (simp add: collapse_def)
    from collapseLoop_indexed [OF ok this]
    have "length (arrVertices s') + nat k = length (arrVertices s)" by blast
    with k show ?thesis by linarith
  qed
  from one all show ?thesis by blast
qed

text \<open>
  C2. On the graph populated from four vertices and the triangles (0, 1, 2) and
  (0, 3, 3), \<open>collapse( 5 )\<close> replaces the count by 2. The first iteration removes vertex
  3, which is its own collapse neighbour, and re-inserts its stale index 3 after
  \<open>splice( -1, 1 )\<close> has deleted the index 2 from \<open>arrVerticesByCost\<close>; the second
  iteration reads \<open>arrVertices[ 3 ]\<close>, which is \<open>undefined\<close>, and the call ends with a
  \<open>TypeError\<close> after removing one vertex instead of two.
\<close>

theorem C2_repeated_vertex_crash:
  "case populateFromGeometry flagPositions flagTriangles of
     Inl e \<Rightarrow> False
   | Inr s \<Rightarrow> length (arrVertices s) = 4 \<and> length (arrFaces s) = 2 \<and>
       loopCount (length (arrVertices s)) 5 = 2 \<and>
       collapse 5 s = Inl TypeError \<and>
       (case collapseStep s of
          Inl e \<Rightarrow> False
        | Inr s1 \<Rightarrow> length (arrVertices s1) = 3 \<and> arrVerticesByCost s1 = [3, 1, 0] \<and>
            collapseStep s1 = Inl TypeError)"
  by (simp add: eval_defs flagPositions_def flagTriangles_def del: frame_simps cong: let_weak_cong)

text \<open>
  With a count above the number n of vertices of a populated graph, the loop of
  \<open>collapse\<close> runs as for the count n/2, that is (n + 1) div 2 times; a call that
  completes leaves n div 2 vertices.
\<close>

lemma excess_count_halved:
  assumes "populateFromGeometry ps ts = Inr s" "int (length (arrVertices s)) < count"
  shows "collapse count s = collapseLoop ((length (arrVertices s) + 1) div 2) s \<and>
         (collapse count s = Inr s' \<longrightarrow>
            length (arrVertices s') = length (arrVertices s) div 2)"
proof -
  from populate_indexed [OF assms(1)] have ok: "indexed s" by simp
  from assms(2) have lc: "loopCount (length (arrVertices s)) count = (length (arrVertices s) + 1) div 2"
    by (rule loopCount_above)
  then have eq: "collapse count s = collapseLoop ((length (arrVertices s) + 1) div 2) s"
    by (simp add: collapse_def)
  have "length (arrVertices s') = length (arrVertices s) div 2" if "collapse count s = Inr s'"
  proof -
    from that eq have "collapseLoop ((length (arrVertices s) + 1) div 2) s = Inr s'" by simp
    from collapseLoop_indexed [OF ok this]
    have "length (arrVertices s') + (length (arrVertices s) + 1) div 2 = length (arrVertices s)"
      by blast
    then show ?thesis by presburger
  qed
  with eq show ?thesis by auto
qed

section \<open>Paths of the sequential walk and of the nearest-neighbour search\<close>

lemma walkFaces_paths:
  assumes "\<forall>p \<in> set paths. 2 \<le> length p"
    and "walkFaces s fs (paths, path, sp, prev) = (paths', path', sp', prev')"
  shows "\<forall>p \<in> set paths'. 2 \<le> length p"
  using assms
proof (induction fs arbitrary: paths path sp prev)
  case Nil
  then show ?case by simp
next
  case (Cons face fs)
  let ?st = "case prev of
          None \<Rightarrow> (case getNextPoint sp s face of
                      (p, sp1) \<Rightarrow> (paths, path @ [p], sp1, Some face))
        | Some prevFace \<Rightarrow>
            if isConnected s face prevFace
            then (case getNextPoint sp s face of
                    (p, sp1) \<Rightarrow> (paths, path @ [p], sp1, Some face))
            else (case getNextPoint (resetPreviousPoint sp) s face of
                    (p, sp1) \<Rightarrow>
                      ((if length path > 1 then paths @ [path] else paths),
                       [p], sp1\<lparr>previousPoint := Some p\<rparr>, Some face))"
  obtain paths1 path1 sp1 prev1 where st: "?st = (paths1, path1, sp1, prev1)"
    by (cases ?st) auto
  have "\<forall>p \<in> set paths1. 2 \<le> length p"
    using st Cons.prems(1) by (auto split: option.splits if_splits prod.splits)
  moreover from Cons.prems(2) st have "walkFaces s fs (paths1, path1, sp1, prev1) = (paths', path', sp', prev')"
    by simp
  ultimately show ?case by (rule Cons.IH)
qed

lemma sequentialWalk_paths:
  "\<forall>p \<in> set (fst (sequentialWalk sp s)). 2 \<le> length p"
proof -
  obtain paths' path' sp' prev' where
    w: "walkFaces s (arrFaces s) ([], [], resetPreviousPoint sp, None) = (paths', path', sp', prev')"
    by (cases "walkFaces s (arrFaces s) ([], [], resetPreviousPoint sp, None)") auto
  have "\<forall>p \<in> set paths'. 2 \<le> length p"
    by (rule walkFaces_paths [OF _ w]) simp
  with w show ?thesis by (auto simp: sequentialWalk_def)
qed

lemma searchRound_paths:
  assumes "searchRound startFace st = Some st1"
    and "\<forall>p \<in> set (snd (snd (snd st))). 2 \<le> length p"
  shows "\<forall>p \<in> set (snd (snd (snd st1))). 2 \<le> length p"
  using assms
  by (auto simp: searchRound_def split: prod.splits option.splits if_splits)

lemma searchLoop_paths:
  assumes run: "searchLoop currentFace st = Some res"
  shows "(\<forall>p \<in> set (snd (snd (snd st))). 2 \<le> length p) \<longrightarrow> (\<forall>p \<in> set (fst res). 2 \<le> length p)"
proof (rule searchLoop.raw_induct [where
      P = "\<lambda>currentFace st res. (\<forall>p \<in> set (snd (snd (snd st))). 2 \<le> length p) \<longrightarrow>
             (\<forall>p \<in> set (fst res). 2 \<le> length p)", OF _ run], goal_cases)
  case (1 loop currentFace st res)
  obtain sp s selectedCount paths where st: "st = (sp, s, selectedCount, paths)" by (cases st) auto
  show ?case
  proof
    assume ok: "\<forall>p \<in> set (snd (snd (snd st))). 2 \<le> length p"
    show "\<forall>p \<in> set (fst res). 2 \<le> length p"
    proof (cases "currentFace \<noteq> None \<and> selectedCount < length (arrFaces s)")
      case False
      with 1(2) st ok show ?thesis by (auto split: option.splits if_splits)
    next
      case True
      then obtain startFace where sf: "currentFace = Some startFace" by auto
      from 1(2) st sf True obtain st1 where
        r: "searchRound startFace st = Some st1" and
        rec: "loop (getStartFace (fst (snd st1))) st1 = Some res"
        by (auto split: option.splits)
      from searchRound_paths [OF r ok] 1(1) [OF rec] show ?thesis by blast
    qed
  qed
qed

lemma nearestNeighborSearch_paths:
  "nearestNeighborSearch sp s = Some res \<Longrightarrow> \<forall>p \<in> set (fst res). 2 \<le> length p"
  using searchLoop_paths [of "Some (arrFaces s ! 0)" "(sp, s, 0, [])" res]
  by (auto simp: nearestNeighborSearch_def split: if_splits)

section \<open>Degrees only grow\<close>

lemma grows_refl: "grows s s"
  by (simp add: grows_def)

lemma grows_trans: "grows s s1 \<Longrightarrow> grows s1 s2 \<Longrightarrow> grows s s2"
  unfolding grows_def by (metis order_trans)

lemma grows_incrementDegree: "grows s (incrementDegree t s)"
  by (simp add: grows_def incrementDegree_def)

lemma grows_neighbors: "grows s s' \<Longrightarrow> Triangle_neighbors s' t = Triangle_neighbors s t"
  by (simp add: grows_def Triangle_neighbors_def)

lemma grows_listed: "grows s s' \<Longrightarrow> neighborsListed s \<Longrightarrow> neighborsListed s'"
  by (simp add: neighborsListed_def grows_neighbors) (simp add: grows_def)

lemma grows_arrFaces: "grows s s' \<Longrightarrow> arrFaces s' = arrFaces s"
  by (simp add: grows_def)

lemma grows_degree: "grows s s' \<Longrightarrow> degree (faceOf s t) \<le> degree (faceOf s' t)"
  by (simp add: grows_def)

lemma finite_unused [simp]: "finite (unused s)"
  by (simp add: unused_def)

lemma grows_unused: "grows s s' \<Longrightarrow> unused s' \<subseteq> unused s"
proof
  fix x
  assume g: "grows s s'" and x: "x \<in> unused s'"
  from grows_degree [OF g, of x] x have "degree (faceOf s x) = 0" by (simp add: unused_def)
  with x grows_arrFaces [OF g] show "x \<in> unused s" by (simp add: unused_def)
qed

lemma grows_card: "grows s s' \<Longrightarrow> card (unused s') \<le> card (unused s)"
  by (intro card_mono grows_unused) simp_all

lemma unused_incrementDegree: "unused (incrementDegree t s) = unused s - {t}"
  by (auto simp: unused_def incrementDegree_def)

lemma card_unused_increment:
  "t \<in> unused s \<Longrightarrow> card (unused (incrementDegree t s)) + 1 = card (unused s)"
  using card_Suc_Diff1 [of "unused s" t] by (simp add: unused_incrementDegree)

lemma card_unused_increment_used:
  "t \<notin> unused s \<Longrightarrow> card (unused (incrementDegree t s)) = card (unused s)"
  by (simp add: unused_incrementDegree)

lemma listed_neighbor:
  "neighborsListed s \<Longrightarrow> f \<in> set (arrFaces s) \<Longrightarrow> n \<in> set (Triangle_neighbors s f) \<Longrightarrow>
   n \<in> set (arrFaces s)"
  by (simp add: neighborsListed_def list_all_iff)

section \<open>The nearest neighbour is an unused neighbour\<close>

lemma bestByNormal_fold:
  "snd (fold (\<lambda>neighbor (cost, best).
                  if degree (faceOf s neighbor) < 1 \<and>
                     dot (normal (faceOf s face)) (normal (faceOf s neighbor)) > cost
                  then (dot (normal (faceOf s face)) (normal (faceOf s neighbor)), Some neighbor)
                  else (cost, best)) ns acc) = Some n \<Longrightarrow>
   snd acc = Some n \<or> (n \<in> set ns \<and> degree (faceOf s n) < 1)"
proof (induction ns arbitrary: acc)
  case Nil
  then show ?case by simp
next
  case (Cons x xs)
  obtain c b where acc: "acc = (c, b)" by (cases acc)
  from Cons.IH [OF Cons.prems [simplified fold_simps]] acc
  show ?case by (auto split: if_splits)
qed

lemma bestByNormal_Some:
  "bestByNormal s face ns = Some n \<Longrightarrow> n \<in> set ns \<and> degree (faceOf s n) < 1"
  unfolding bestByNormal_def by (drule bestByNormal_fold) simp

lemma bestByDirection_fold:
  "fold (\<lambda>neighbor best.
             if degree (faceOf s neighbor) < 1 \<and>
                1 - dot (normalizeV prevVector)
                        (normalizeV (subVectors (center (faceOf s neighbor)) (center (faceOf s face)))) < 1
             then Some neighbor else best) ns acc = Some n \<Longrightarrow>
   acc = Some n \<or> (n \<in> set ns \<and> degree (faceOf s n) < 1)"
proof (induction ns arbitrary: acc)
  case Nil
  then show ?case by simp
next
  case (Cons x xs)
  from Cons.IH [OF Cons.prems [simplified fold_simps]]
  show ?case by (auto split: if_splits)
qed

lemma bestByDirection_Some:
  "bestByDirection s prevVector face ns = Some n \<Longrightarrow> n \<in> set ns \<and> degree (faceOf s n) < 1"
  unfolding bestByDirection_def by (drule bestByDirection_fold) simp

lemma getNearestNeighbor_cases:
  assumes "getNearestNeighbor sp s face = (nxt, s1)"
  shows "(nxt = None \<and> s1 = s) \<or>
         (\<exists>n. nxt = Some n \<and> n \<in> set (Triangle_neighbors s face) \<and>
              degree (faceOf s n) = 0 \<and> s1 = incrementDegree n s)"
proof (cases nxt)
  case None
  with assms show ?thesis
    by (auto simp: getNearestNeighbor_def split: if_splits option.splits)
next
  case (Some n)
  with assms have s1: "s1 = incrementDegree n s"
    by (auto simp: getNearestNeighbor_def split: if_splits option.splits)
  from assms Some have
    "bestByNormal s face (Triangle_neighbors s face) = Some n \<or>
     (\<exists>pv. bestByDirection s pv face (Triangle_neighbors s face) = Some n)"
    by (auto simp: getNearestNeighbor_def split: if_splits option.splits)
  then have "n \<in> set (Triangle_neighbors s face) \<and> degree (faceOf s n) < 1"
    using bestByNormal_Some bestByDirection_Some by blast
  with Some s1 show ?thesis by simp
qed

section \<open>Growing a path\<close>

lemma growStep_props:
  assumes listed: "neighborsListed s" and f: "f \<in> set (arrFaces s)"
    and step: "growStep forward f (sp, s, selectedCount, path) = (nxt, sp1, s1, count1, path1)"
  shows "grows s s1 \<and> count1 = selectedCount + 1 \<and> length path1 = length path + 1 \<and>
         (\<forall>n. nxt = Some n \<longrightarrow> n \<in> set (arrFaces s1)) \<and>
         1 \<le> degree (faceOf s1 f) \<and>
         count1 + pending s1 nxt + card (unused s1) =
           selectedCount + pending s (Some f) + card (unused s)"
proof -
  let ?s' = "incrementDegree f s"
  obtain p sp' where np: "getNextPoint sp ?s' f = (p, sp')" by (cases "getNextPoint sp ?s' f")
  obtain nx s'' where nn: "getNearestNeighbor sp' ?s' f = (nx, s'')"
    by (cases "getNearestNeighbor sp' ?s' f")
  from step np nn have eqs: "nxt = nx" "s1 = s''" "count1 = selectedCount + 1"
    "path1 = (if forward then path @ [p] else p # path)"
    by (simp_all add: growStep_def)
  have g1: "grows s ?s'" by (rule grows_incrementDegree)
  have af: "arrFaces ?s' = arrFaces s" using g1 by (rule grows_arrFaces)
  have d1: "1 \<le> degree (faceOf ?s' f)" by (simp add: incrementDegree_def)
  have c1: "card (unused ?s') + 1 = pending s (Some f) + card (unused s)"
  proof (cases "degree (faceOf s f) = 0")
    case True
    with f have "f \<in> unused s" by (simp add: unused_def)
    from card_unused_increment [OF this] True show ?thesis by (simp add: pending_def)
  next
    case False
    then have "f \<notin> unused s" by (simp add: unused_def)
    from card_unused_increment_used [OF this] False show ?thesis by (simp add: pending_def)
  qed
  from getNearestNeighbor_cases [OF nn] show ?thesis
  proof
    assume "nx = None \<and> s'' = ?s'"
    with eqs g1 d1 c1 show ?thesis by (simp add: pending_def)
  next
    assume "\<exists>n. nx = Some n \<and> n \<in> set (Triangle_neighbors ?s' f) \<and>
              degree (faceOf ?s' n) = 0 \<and> s'' = incrementDegree n ?s'"
    then obtain n where n: "nx = Some n" "n \<in> set (Triangle_neighbors ?s' f)"
      "degree (faceOf ?s' n) = 0" "s'' = incrementDegree n ?s'" by blast
    have "n \<in> set (Triangle_neighbors s f)" using n(2) grows_neighbors [OF g1] by simp
    with listed f have nin: "n \<in> set (arrFaces s)" by (rule listed_neighbor)
    with n(3) af have "n \<in> unused ?s'" by (simp add: unused_def)
    from card_unused_increment [OF this] n(4) have c2: "card (unused s'') + 1 = card (unused ?s')"
      by simp
    have g2: "grows ?s' s''" using n(4) by (simp add: grows_incrementDegree)
    have g: "grows s s''" using g1 g2 by (rule grows_trans)
    have pn: "pending s'' (Some n) = 1" using n(4) by (simp add: pending_def incrementDegree_def)
    have d2: "1 \<le> degree (faceOf s'' f)" using d1 grows_degree [OF g2, of f] by linarith
    have "n \<in> set (arrFaces s'')" using nin grows_arrFaces [OF g] by simp
    with eqs n(1) g pn d2 c1 c2 show ?thesis by simp
  qed
qed

lemma growPath_total:
  assumes "neighborsListed s" and "\<forall>f. currentFace = Some f \<longrightarrow> f \<in> set (arrFaces s)"
  shows "\<exists>sp' s' count' path'.
           growPath forward currentFace (sp, s, selectedCount, path) = Some (sp', s', count', path') \<and>
           grows s s' \<and>
           count' + card (unused s') = selectedCount + pending s currentFace + card (unused s) \<and>
           (\<forall>f. currentFace = Some f \<longrightarrow> selectedCount < count' \<and> 1 \<le> degree (faceOf s' f)) \<and>
           length path' = length path + (count' - selectedCount) \<and> selectedCount \<le> count'"
  using assms
proof (induction "card (unused s) + (if currentFace = None then 0 else 1)"
    arbitrary: currentFace sp s selectedCount path rule: less_induct)
  case less
  show ?case
  proof (cases currentFace)
    case None
    then show ?thesis by (simp add: growPath.simps grows_refl pending_def)
  next
    case (Some f)
    with less.prems have f: "f \<in> set (arrFaces s)" by simp
    obtain nxt sp1 s1 count1 path1 where
      step: "growStep forward f (sp, s, selectedCount, path) = (nxt, sp1, s1, count1, path1)"
      by (cases "growStep forward f (sp, s, selectedCount, path)") auto
    note P = growStep_props [OF less.prems(1) f step]
    from P have g1: "grows s s1" by blast
    from P have c1: "count1 = selectedCount + 1" by blast
    from P have l1: "length path1 = length path + 1" by blast
    from P have n1: "\<forall>n. nxt = Some n \<longrightarrow> n \<in> set (arrFaces s1)" by blast
    from P have d1: "1 \<le> degree (faceOf s1 f)" by blast
    from P have e1: "count1 + pending s1 nxt + card (unused s1) =
           selectedCount + pending s (Some f) + card (unused s)" by blast
    have pend_le: "pending s (Some f) \<le> 1" by (simp add: pending_def)
    have pend_nxt: "nxt \<noteq> None \<Longrightarrow> pending s1 nxt = 1"
    proof -
      assume "nxt \<noteq> None"
      then obtain n where n: "nxt = Some n" by auto
      show ?thesis
      proof (rule ccontr)
        assume "pending s1 nxt \<noteq> 1"
        with n have z: "degree (faceOf s1 n) = 0" by (simp add: pending_def split: if_splits)
        obtain p sp' where np: "getNextPoint sp (incrementDegree f s) f = (p, sp')"
          by (cases "getNextPoint sp (incrementDegree f s) f")
        obtain nx s'' where nn: "getNearestNeighbor sp' (incrementDegree f s) f = (nx, s'')"
          by (cases "getNearestNeighbor sp' (incrementDegree f s) f")
        from step np nn have "nxt = nx" "s1 = s''" by (simp_all add: growStep_def)
        with getNearestNeighbor_cases [OF nn] n have "s1 = incrementDegree n (incrementDegree f s)"
          by auto
        then have "1 \<le> degree (faceOf s1 n)" by (simp add: incrementDegree_def)
        with z show False by simp
      qed
    qed
    have meas: "card (unused s1) + (if nxt = None then 0 else 1) <
          card (unused s) + (if currentFace = None then 0 else 1)"
    proof (cases nxt)
      case None
      with e1 c1 pend_le Some show ?thesis by (simp add: pending_def)
    next
      case (Some n)
      with pend_nxt have "pending s1 nxt = 1" by simp
      with e1 c1 pend_le Some \<open>currentFace = Some f\<close> show ?thesis by simp
    qed
    have "\<exists>sp' s' count' path'.
           growPath forward nxt (sp1, s1, count1, path1) = Some (sp', s', count', path') \<and>
           grows s1 s' \<and>
           count' + card (unused s') = count1 + pending s1 nxt + card (unused s1) \<and>
           (\<forall>f. nxt = Some f \<longrightarrow> count1 < count' \<and> 1 \<le> degree (faceOf s' f)) \<and>
           length path' = length path1 + (count' - count1) \<and> count1 \<le> count'"
      by (rule less.hyps [OF meas grows_listed [OF g1 less.prems(1)] n1])
    then obtain sp' s' count' path' where
      run: "growPath forward nxt (sp1, s1, count1, path1) = Some (sp', s', count', path')"
      and g2: "grows s1 s'"
      and e2: "count' + card (unused s') = count1 + pending s1 nxt + card (unused s1)"
      and l2: "length path' = length path1 + (count' - count1)"
      and m2: "count1 \<le> count'"
      by blast
    have "growPath forward currentFace (sp, s, selectedCount, path) = Some (sp', s', count', path')"
      using Some step run by (subst growPath.simps) simp
    moreover have "grows s s'" using g1 g2 by (rule grows_trans)
    moreover have "count' + card (unused s') = selectedCount + pending s currentFace + card (unused s)"
      using e1 e2 Some by simp
    moreover have "selectedCount < count'" using c1 m2 by simp
    moreover have "1 \<le> degree (faceOf s' f)" using d1 grows_degree [OF g2, of f] by linarith
    moreover have "length path' = length path + (count' - selectedCount)"
      using l1 l2 c1 m2 by simp
    ultimately show ?thesis using Some by simp
  qed
qed

section \<open>The nearest-neighbour search returns and covers the faces\<close>

lemma covered_iff: "covered s \<longleftrightarrow> unused s = {}"
  by (auto simp: covered_def unused_def list_all_iff Suc_le_eq)

lemma getStartFace_None: "getStartFace s = None \<Longrightarrow> unused s = {}"
  by (auto simp: getStartFace_def unused_def find_None_iff)

lemma getStartFace_Some:
  "getStartFace s = Some f \<Longrightarrow> f \<in> set (arrFaces s) \<and> degree (faceOf s f) = 0"
  by (auto simp: getStartFace_def find_Some_iff)

lemma searchRound_total:
  assumes listed: "neighborsListed s" and f: "startFace \<in> set (arrFaces s)"
  shows "\<exists>sp3 s3 count3 paths3.
           searchRound startFace (sp, s, selectedCount, paths) = Some (sp3, s3, count3, paths3) \<and>
           grows s s3 \<and>
           count3 + card (unused s3) = selectedCount + pending s (Some startFace) + card (unused s) \<and>
           selectedCount < count3"
proof -
  from growPath_total [OF listed, of "Some startFace" True "resetPreviousPoint sp" selectedCount "[]"] f
  obtain sp1 s1 count1 path1 where
    run1: "growPath True (Some startFace) (resetPreviousPoint sp, s, selectedCount, []) =
             Some (sp1, s1, count1, path1)"
    and g1: "grows s s1"
    and e1: "count1 + card (unused s1) = selectedCount + pending s (Some startFace) + card (unused s)"
    and m1: "selectedCount < count1"
    by auto
  have listed1: "neighborsListed s1" using g1 listed by (rule grows_listed)
  have f1: "startFace \<in> set (arrFaces s1)" using f grows_arrFaces [OF g1] by simp
  obtain p sp2 where np: "getNextPoint (resetPreviousPoint sp1) s1 startFace = (p, sp2)"
    by (cases "getNextPoint (resetPreviousPoint sp1) s1 startFace")
  obtain nxt s2 where nn: "getNearestNeighbor sp2 s1 startFace = (nxt, s2)"
    by (cases "getNearestNeighbor sp2 s1 startFace")
  have mid: "grows s1 s2 \<and> (\<forall>n. nxt = Some n \<longrightarrow> n \<in> set (arrFaces s2)) \<and>
             pending s2 nxt + card (unused s2) = card (unused s1)"
    using getNearestNeighbor_cases [OF nn]
  proof
    assume "nxt = None \<and> s2 = s1"
    then show ?thesis by (simp add: grows_refl pending_def)
  next
    assume "\<exists>n. nxt = Some n \<and> n \<in> set (Triangle_neighbors s1 startFace) \<and>
              degree (faceOf s1 n) = 0 \<and> s2 = incrementDegree n s1"
    then obtain n where n: "nxt = Some n" "n \<in> set (Triangle_neighbors s1 startFace)"
      "degree (faceOf s1 n) = 0" "s2 = incrementDegree n s1" by blast
    from listed1 f1 n(2) have nin: "n \<in> set (arrFaces s1)" by (rule listed_neighbor)
    with n(3) have "n \<in> unused s1" by (simp add: unused_def)
    from card_unused_increment [OF this] n(4) have "card (unused s2) + 1 = card (unused s1)" by simp
    moreover have "pending s2 (Some n) = 1" using n(4) by (simp add: pending_def incrementDegree_def)
    moreover have "grows s1 s2" using n(4) by (simp add: grows_incrementDegree)
    moreover from this nin have "n \<in> set (arrFaces s2)" by (simp add: grows_arrFaces)
    ultimately show ?thesis using n(1) by simp
  qed
  then have g2: "grows s1 s2" and n2: "\<forall>n. nxt = Some n \<longrightarrow> n \<in> set (arrFaces s2)"
    and e2: "pending s2 nxt + card (unused s2) = card (unused s1)" by blast+
  have listed2: "neighborsListed s2" using g2 listed1 by (rule grows_listed)
  from growPath_total [OF listed2 n2, of False sp2 count1 path1]
  obtain sp3 s3 count3 path3 where
    run3: "growPath False nxt (sp2, s2, count1, path1) = Some (sp3, s3, count3, path3)"
    and g3: "grows s2 s3"
    and e3: "count3 + card (unused s3) = count1 + pending s2 nxt + card (unused s2)"
    and m3: "count1 \<le> count3"
    by blast
  have "searchRound startFace (sp, s, selectedCount, paths) =
          Some (sp3, s3, count3, (if length path3 > 1 then paths @ [path3] else paths))"
    using run1 np nn run3 by (simp add: searchRound_def)
  moreover have "grows s s3" using g1 g2 g3 by (blast intro: grows_trans)
  moreover have "count3 + card (unused s3) =
      selectedCount + pending s (Some startFace) + card (unused s)"
    using e1 e2 e3 by simp
  moreover have "selectedCount < count3" using m1 m3 by simp
  ultimately show ?thesis by blast
qed

lemma searchLoop_total:
  assumes "neighborsListed s" and "\<forall>f. currentFace = Some f \<longrightarrow> f \<in> set (arrFaces s)"
  shows "\<exists>paths' sp' s'.
           searchLoop currentFace (sp, s, selectedCount, paths) = Some (paths', sp', s') \<and>
           grows s s' \<and>
           (selectedCount + card (unused s) = card (set (arrFaces s)) \<and>
            pending s currentFace = 0 \<and> (currentFace = None \<longrightarrow> unused s = {})
            \<longrightarrow> unused s' = {})"
  using assms
proof (induction "length (arrFaces s) - selectedCount"
    arbitrary: currentFace sp s selectedCount paths rule: less_induct)
  case less
  show ?case
  proof (cases "currentFace \<noteq> None \<and> selectedCount < length (arrFaces s)")
    case False
    then have run: "searchLoop currentFace (sp, s, selectedCount, paths) = Some (paths, sp, s)"
      by (subst searchLoop.simps) (auto split: option.splits)
    have "unused s = {}"
      if k: "selectedCount + card (unused s) = card (set (arrFaces s))"
        and n: "currentFace = None \<longrightarrow> unused s = {}"
    proof (cases currentFace)
      case None
      with n show ?thesis by simp
    next
      case (Some f)
      with False have "length (arrFaces s) \<le> selectedCount" by simp
      moreover have "card (set (arrFaces s)) \<le> length (arrFaces s)" by (rule card_length)
      ultimately have "card (unused s) = 0" using k by linarith
      then show ?thesis by simp
    qed
    with run show ?thesis by (simp add: grows_refl)
  next
    case True
    then obtain f where cf: "currentFace = Some f" by auto
    with less.prems have f: "f \<in> set (arrFaces s)" by simp
    from searchRound_total [OF less.prems(1) f, of sp selectedCount paths]
    obtain sp3 s3 count3 paths3 where
      round: "searchRound f (sp, s, selectedCount, paths) = Some (sp3, s3, count3, paths3)"
      and g: "grows s s3"
      and e: "count3 + card (unused s3) = selectedCount + pending s (Some f) + card (unused s)"
      and m: "selectedCount < count3"
      by blast
    have af: "arrFaces s3 = arrFaces s" using g by (rule grows_arrFaces)
    have meas: "length (arrFaces s3) - count3 < length (arrFaces s) - selectedCount"
    proof -
      from True have "selectedCount < length (arrFaces s)" by blast
      with m show ?thesis unfolding af by (rule diff_less_mono2)
    qed
    have nf: "\<forall>f. getStartFace s3 = Some f \<longrightarrow> f \<in> set (arrFaces s3)"
      using getStartFace_Some by blast
    have "\<exists>paths' sp' s'.
           searchLoop (getStartFace s3) (sp3, s3, count3, paths3) = Some (paths', sp', s') \<and>
           grows s3 s' \<and>
           (count3 + card (unused s3) = card (set (arrFaces s3)) \<and>
            pending s3 (getStartFace s3) = 0 \<and> (getStartFace s3 = None \<longrightarrow> unused s3 = {})
            \<longrightarrow> unused s' = {})"
      by (rule less.hyps [OF meas grows_listed [OF g less.prems(1)] nf])
    then obtain paths' sp' s' where
      rec: "searchLoop (getStartFace s3) (sp3, s3, count3, paths3) = Some (paths', sp', s')"
      and g': "grows s3 s'"
      and cov: "count3 + card (unused s3) = card (set (arrFaces s3)) \<and>
            pending s3 (getStartFace s3) = 0 \<and> (getStartFace s3 = None \<longrightarrow> unused s3 = {})
            \<longrightarrow> unused s' = {}"
      by blast
    have run: "searchLoop currentFace (sp, s, selectedCount, paths) = Some (paths', sp', s')"
      using cf True round rec by (subst searchLoop.simps) simp
    have p3: "pending s3 (getStartFace s3) = 0"
      using getStartFace_Some [of s3] by (cases "getStartFace s3") (simp_all add: pending_def)
    have cov2: "selectedCount + card (unused s) = card (set (arrFaces s)) \<and>
            pending s currentFace = 0 \<and> (currentFace = None \<longrightarrow> unused s = {})
            \<longrightarrow> unused s' = {}"
    proof (intro impI, elim conjE)
      assume k: "selectedCount + card (unused s) = card (set (arrFaces s))"
        and p: "pending s currentFace = 0"
      from k p e cf af have "count3 + card (unused s3) = card (set (arrFaces s3))" by simp
      with cov p3 getStartFace_None [of s3] show "unused s' = {}" by blast
    qed
    have gg: "grows s s'" using g g' by (rule grows_trans)
    show ?thesis by (intro exI conjI) (rule run gg cov2)+
  qed
qed

lemma untouched_unused: "untouched s \<Longrightarrow> unused s = set (arrFaces s)"
  by (auto simp: untouched_def unused_def list_all_iff)

lemma nearestNeighborSearch_total:
  assumes listed: "neighborsListed s"
  shows "\<exists>paths' sp' s'.
           nearestNeighborSearch sp s = Some (paths', sp', s') \<and> grows s s' \<and>
           (untouched s \<and> 2 \<le> length (arrFaces s) \<longrightarrow> covered s')"
proof (cases "length (arrFaces s) < 2")
  case True
  then show ?thesis by (simp add: nearestNeighborSearch_def grows_refl)
next
  case False
  then have pos: "0 < length (arrFaces s)" by linarith
  then have "arrFaces s ! 0 \<in> set (arrFaces s)" by (rule nth_mem)
  then have first: "\<forall>f. Some (arrFaces s ! 0) = Some f \<longrightarrow> f \<in> set (arrFaces s)" by simp
  from searchLoop_total [OF listed first, of sp 0 "[]"]
  obtain paths' sp' s' where
    run: "searchLoop (Some (arrFaces s ! 0)) (sp, s, 0, []) = Some (paths', sp', s')"
    and g: "grows s s'"
    and cov: "0 + card (unused s) = card (set (arrFaces s)) \<and>
            pending s (Some (arrFaces s ! 0)) = 0 \<and> (Some (arrFaces s ! 0) = None \<longrightarrow> unused s = {})
            \<longrightarrow> unused s' = {}"
    by blast
  have "covered s'" if u: "untouched s"
  proof -
    from u have "\<forall>n < length (arrFaces s). degree (faceOf s (arrFaces s ! n)) = 0"
      by (simp add: untouched_def list_all_length)
    with pos have "degree (faceOf s (arrFaces s ! 0)) = 0" by blast
    then have "pending s (Some (arrFaces s ! 0)) = 0" by (simp add: pending_def)
    with cov untouched_unused [OF u] show ?thesis by (simp add: covered_iff)
  qed
  with run g False show ?thesis by (simp add: nearestNeighborSearch_def)
qed

section \<open>The wrapping search returns and covers the faces\<close>

lemma setOrder_fold:
  "distinct acc \<Longrightarrow>
   distinct (fold (\<lambda>x acc. if x \<in> set acc then acc else acc @ [x]) xs acc) \<and>
   set (fold (\<lambda>x acc. if x \<in> set acc then acc else acc @ [x]) xs acc) = set xs \<union> set acc"
  by (induction xs arbitrary: acc) auto

lemma distinct_setOrder: "distinct (setOrder xs)"
  using setOrder_fold [of "[]" xs] by (simp add: setOrder_def)

lemma set_setOrder: "set (setOrder xs) = set xs"
  using setOrder_fold [of "[]" xs] by (simp add: setOrder_def)

lemma getUnconnectedNeighbors_unused:
  assumes "neighborsListed s" and "set A \<subseteq> set (arrFaces s)"
  shows "set (getUnconnectedNeighbors s A) \<subseteq> unused s"
proof
  fix n
  assume "n \<in> set (getUnconnectedNeighbors s A)"
  then obtain a where a: "a \<in> set A" "n \<in> set (Triangle_neighbors s a)" "degree (faceOf s n) = 0"
    by (auto simp: getUnconnectedNeighbors_def set_setOrder)
  from assms(2) a(1) have "a \<in> set (arrFaces s)" by blast
  with assms(1) have "n \<in> set (arrFaces s)" using a(2) by (rule listed_neighbor)
  with a(3) show "n \<in> unused s" by (simp add: unused_def)
qed

lemma differenceArray_remove1: "differenceArray A B = fold remove1 B A"
  by (simp add: differenceArray_def removeFound_indexOf)

lemma fold_remove1_distinct:
  "distinct A \<Longrightarrow> set (fold remove1 B A) = set A - set B"
  by (induction B arbitrary: A) auto

lemma fold_remove1_subset: "set (fold remove1 B A) \<subseteq> set A"
proof (induction B arbitrary: A)
  case Nil
  then show ?case by simp
next
  case (Cons b B)
  have "set (fold remove1 B (remove1 b A)) \<subseteq> set (remove1 b A)" by (rule Cons.IH)
  also have "\<dots> \<subseteq> set A" by (rule set_remove1_subset)
  finally show ?case by simp
qed

lemma differenceArray_self: "distinct A \<Longrightarrow> differenceArray A A = []"
  using fold_remove1_distinct [of A A] by (simp add: differenceArray_remove1)

lemma differenceArray_subset: "set (differenceArray A B) \<subseteq> set A"
  by (simp add: differenceArray_remove1 fold_remove1_subset)

lemma set_splice1_distinct:
  assumes "distinct xs" and "i < length xs"
  shows "set (splice1 i xs) = set xs - {xs ! i}"
proof -
  have "xs = take i xs @ xs ! i # drop (Suc i) xs" using assms(2) by (rule id_take_nth_drop)
  then have "distinct (take i xs @ xs ! i # drop (Suc i) xs) \<and>
      set xs = set (take i xs @ xs ! i # drop (Suc i) xs)"
    using assms(1) by simp
  then show ?thesis by (auto simp: splice1_def)
qed

lemma consumeNeighbors_props:
  assumes "distinct cn" and "set cn \<subseteq> unused s"
    and "consumeNeighbors s (path, cf, A, cn) = (s', path', cf', A')"
  shows "grows s s' \<and> set A' \<subseteq> set A \<and>
         ((s' = s \<and> A' = differenceArray A cn) \<or> card (unused s') < card (unused s))"
  using assms
proof (induction "length cn" arbitrary: s path cf A cn rule: less_induct)
  case less
  show ?case
  proof (cases "cn = []")
    case True
    with less.prems(3) show ?thesis
      by (simp add: consumeNeighbors.simps grows_refl differenceArray_def)
  next
    case False
    show ?thesis
    proof (cases "nearestIndex s cf cn")
      case None
      with False less.prems(3) have "s' = s \<and> A' = differenceArray A cn"
        by (simp add: consumeNeighbors.simps [of s path cf A cn]
            consumeNeighbors.simps [of s path cf "differenceArray A cn" "[]"])
      then show ?thesis by (simp add: grows_refl differenceArray_subset)
    next
      case (Some i)
      then have i: "i < length cn" by (rule nearestIndex_less)
      let ?s1 = "incrementDegree (cn ! i) s"
      from False Some less.prems(3) have rec:
        "consumeNeighbors ?s1 (path @ [cn ! i], cn ! i, A, splice1 i cn) = (s', path', cf', A')"
        by (simp add: consumeNeighbors.simps [of s path cf A cn])
      have len: "length (splice1 i cn) < length cn" using i by (simp add: length_splice1)
      have d: "distinct (splice1 i cn)" using less.prems(1) by (rule distinct_splice1)
      have mem: "cn ! i \<in> unused s" using less.prems(2) i by (meson nth_mem subsetD)
      have sub: "set (splice1 i cn) \<subseteq> unused ?s1"
        using less.prems(2) by (auto simp: set_splice1_distinct [OF less.prems(1) i] unused_incrementDegree)
      from less.hyps [OF len d sub rec] have g2: "grows ?s1 s'" and a: "set A' \<subseteq> set A" by blast+
      have "card (unused s') \<le> card (unused ?s1)" using g2 by (rule grows_card)
      with card_unused_increment [OF mem] have "card (unused s') < card (unused s)" by linarith
      moreover have "grows s s'" using grows_incrementDegree g2 by (rule grows_trans)
      ultimately show ?thesis using a by blast
    qed
  qed
qed

lemma frontierRound_props:
  assumes listed: "neighborsListed s" and A: "set A \<subseteq> set (arrFaces s)"
    and round: "frontierRound s (path, cf, A) = (s', path', cf', A')"
  shows "grows s s' \<and> set A' \<subseteq> set (arrFaces s) \<and> (A' = [] \<or> card (unused s') < card (unused s))"
proof -
  let ?cn = "getUnconnectedNeighbors s A"
  have d: "distinct ?cn" by (simp add: getUnconnectedNeighbors_def distinct_setOrder)
  have sub: "set ?cn \<subseteq> unused s" using listed A by (rule getUnconnectedNeighbors_unused)
  from round have run: "consumeNeighbors s (path, cf, ?cn, ?cn) = (s', path', cf', A')"
    by (simp add: frontierRound_def)
  note P = consumeNeighbors_props [OF d sub run]
  from P have g: "grows s s'" by blast
  from P have "set A' \<subseteq> set ?cn" by blast
  with sub have a: "set A' \<subseteq> set (arrFaces s)" by (auto simp: unused_def)
  from P have "(s' = s \<and> A' = differenceArray ?cn ?cn) \<or> card (unused s') < card (unused s)"
    by blast
  with differenceArray_self [OF d] have "A' = [] \<or> card (unused s') < card (unused s)" by auto
  with g a show ?thesis by blast
qed

lemma expandFrontier_total:
  assumes "neighborsListed s" and "set A \<subseteq> set (arrFaces s)"
  shows "\<exists>path' s'. expandFrontier s (path, cf, A) = Some (path', s') \<and> grows s s'"
  using assms
proof (induction "card (unused s) + (if A = [] then 0 else 1)" arbitrary: s path cf A rule: less_induct)
  case less
  show ?case
  proof (cases "A = []")
    case True
    then show ?thesis by (subst expandFrontier.simps) (simp add: grows_refl)
  next
    case False
    obtain s1 path1 cf1 A1 where round: "frontierRound s (path, cf, A) = (s1, path1, cf1, A1)"
      by (cases "frontierRound s (path, cf, A)") auto
    note P = frontierRound_props [OF less.prems round]
    from P have g: "grows s s1" by blast
    from P have a: "set A1 \<subseteq> set (arrFaces s)" by blast
    from P have c: "A1 = [] \<or> card (unused s1) < card (unused s)" by blast
    have le: "card (unused s1) \<le> card (unused s)" using g by (rule grows_card)
    have meas: "card (unused s1) + (if A1 = [] then 0 else 1) < card (unused s) + (if A = [] then 0 else 1)"
      using c le False by auto
    have a1: "set A1 \<subseteq> set (arrFaces s1)" using a grows_arrFaces [OF g] by simp
    have "\<exists>path' s'. expandFrontier s1 (path1, cf1, A1) = Some (path', s') \<and> grows s1 s'"
      by (rule less.hyps [OF meas grows_listed [OF g less.prems(1)] a1])
    then obtain path' s' where rec: "expandFrontier s1 (path1, cf1, A1) = Some (path', s')"
      and g': "grows s1 s'" by blast
    have "expandFrontier s (path, cf, A) = Some (path', s')"
      using False round rec by (subst expandFrontier.simps) simp
    moreover have "grows s s'" using g g' by (rule grows_trans)
    ultimately show ?thesis by blast
  qed
qed

lemma findPathFromFace_total:
  assumes listed: "neighborsListed s" and f: "f \<in> set (arrFaces s)"
  shows "\<exists>path' s'. findPathFromFace s f = Some (path', s') \<and> grows s s' \<and> 1 \<le> degree (faceOf s' f)"
proof -
  let ?s0 = "incrementDegree f s"
  have g0: "grows s ?s0" by (rule grows_incrementDegree)
  have l0: "neighborsListed ?s0" using g0 listed by (rule grows_listed)
  have a0: "set [f] \<subseteq> set (arrFaces ?s0)" using f grows_arrFaces [OF g0] by simp
  from expandFrontier_total [OF l0 a0, of "[f]" f]
  obtain path' s' where run: "expandFrontier ?s0 ([f], f, [f]) = Some (path', s')"
    and g: "grows ?s0 s'" by blast
  have "1 \<le> degree (faceOf ?s0 f)" by (simp add: incrementDegree_def)
  with grows_degree [OF g, of f] have "1 \<le> degree (faceOf s' f)" by linarith
  moreover have "grows s s'" using g0 g by (rule grows_trans)
  ultimately show ?thesis using run by (simp add: findPathFromFace_def)
qed

lemma wrapRound_total:
  assumes listed: "neighborsListed s" and i: "i < length (arrFaces s)"
  shows "\<exists>sp1 s1 paths1. wrapRound (arrFaces s) i (sp, s, pointPaths) = Some (sp1, s1, paths1) \<and>
           grows s s1 \<and> 1 \<le> degree (faceOf s1 (arrFaces s ! i))"
proof -
  from i have "arrFaces s ! i \<in> set (arrFaces s)" by (rule nth_mem)
  from findPathFromFace_total [OF listed this]
  obtain facePath s1 where run: "findPathFromFace s (arrFaces s ! i) = Some (facePath, s1)"
    and g: "grows s s1" and d: "1 \<le> degree (faceOf s1 (arrFaces s ! i))" by blast
  obtain sp1 pointPath where pts: "pointsOf s1 facePath (resetPreviousPoint sp, []) = (sp1, pointPath)"
    by (cases "pointsOf s1 facePath (resetPreviousPoint sp, [])")
  from run pts have "wrapRound (arrFaces s) i (sp, s, pointPaths) = Some (sp1, s1, pointPaths @ [pointPath])"
    by (simp add: wrapRound_def)
  with g d show ?thesis by blast
qed

lemma wrapLoop_total:
  assumes "neighborsListed s" and "arrFaces s = fs"
    and "\<forall>j < start. 1 \<le> degree (faceOf s (fs ! j))"
  shows "\<exists>paths' sp' s'.
           wrapLoop fs (getNextFace s fs start) (sp, s, pointPaths) = Some (paths', sp', s') \<and>
           grows s s' \<and> covered s'"
  using assms
proof (induction "length fs - start" arbitrary: start sp s pointPaths rule: less_induct)
  case less
  show ?case
  proof (cases "getNextFace s fs start")
    case None
    then have "\<forall>j. start \<le> j \<and> j < length fs \<longrightarrow> degree (faceOf s (fs ! j)) \<noteq> 0"
      by (auto simp: getNextFace_def find_None_iff)
    with less.prems(3) have "\<forall>j < length fs. 1 \<le> degree (faceOf s (fs ! j))"
      by (metis One_nat_def Suc_leI not_gr_zero not_le_imp_less)
    then have "covered s" using less.prems(2) by (simp add: covered_def list_all_length)
    with None show ?thesis by (subst wrapLoop.simps) (simp add: grows_refl)
  next
    case (Some i)
    then have i: "start \<le> i" "i < length fs" 
      by (auto simp: getNextFace_def find_Some_iff)
    from Some have before: "\<forall>j. start \<le> j \<and> j < i \<longrightarrow> degree (faceOf s (fs ! j)) \<noteq> 0"
    proof -
      from Some obtain k where k: "k < length [start ..< length fs]" "[start ..< length fs] ! k = i"
        "\<forall>j < k. degree (faceOf s (fs ! ([start ..< length fs] ! j))) \<noteq> 0"
        by (auto simp: getNextFace_def find_Some_iff)
      from k(1,2) have ki: "i = start + k" by simp
      show ?thesis
      proof (intro allI impI)
        fix j
        assume j: "start \<le> j \<and> j < i"
        then have "j - start < k" using ki by linarith
        with k(3) have "degree (faceOf s (fs ! ([start ..< length fs] ! (j - start)))) \<noteq> 0" by blast
        moreover have "[start ..< length fs] ! (j - start) = j" using j i(2) by simp
        ultimately show "degree (faceOf s (fs ! j)) \<noteq> 0" by simp
      qed
    qed
    from i(2) less.prems(2) have i': "i < length (arrFaces s)" by simp
    from wrapRound_total [OF less.prems(1) i', of sp pointPaths] less.prems(2)
    obtain sp1 s1 paths1 where
      round: "wrapRound fs i (sp, s, pointPaths) = Some (sp1, s1, paths1)"
      and g: "grows s s1" and d: "1 \<le> degree (faceOf s1 (fs ! i))" by auto
    have meas: "length fs - (i + 1) < length fs - start" using i by linarith
    have af: "arrFaces s1 = fs" using grows_arrFaces [OF g] less.prems(2) by simp
    have inv: "\<forall>j < i + 1. 1 \<le> degree (faceOf s1 (fs ! j))"
    proof (intro allI impI)
      fix j
      assume j: "j < i + 1"
      show "1 \<le> degree (faceOf s1 (fs ! j))"
      proof (cases "j = i")
        case True
        with d show ?thesis by simp
      next
        case False
        with j have ji: "j < i" by simp
        have "1 \<le> degree (faceOf s (fs ! j))"
        proof (cases "j < start")
          case True
          with less.prems(3) show ?thesis by blast
        next
          case False
          with ji before have "degree (faceOf s (fs ! j)) \<noteq> 0" by simp
          then show ?thesis by simp
        qed
        with grows_degree [OF g, of "fs ! j"] show ?thesis by linarith
      qed
    qed
    have "\<exists>paths' sp' s'.
           wrapLoop fs (getNextFace s1 fs (i + 1)) (sp1, s1, paths1) = Some (paths', sp', s') \<and>
           grows s1 s' \<and> covered s'"
      by (rule less.hyps [OF meas grows_listed [OF g less.prems(1)] af inv])
    then obtain paths' sp' s' where
      rec: "wrapLoop fs (getNextFace s1 fs (i + 1)) (sp1, s1, paths1) = Some (paths', sp', s')"
      and g': "grows s1 s'" and cov: "covered s'" by blast
    have run: "wrapLoop fs (getNextFace s fs start) (sp, s, pointPaths) = Some (paths', sp', s')"
      using Some round rec by (subst wrapLoop.simps) simp
    have gg: "grows s s'" using g g' by (rule grows_trans)
    show ?thesis by (intro exI conjI) (rule run gg cov)+
  qed
qed

lemma WrappingPathSearch_total:
  assumes "neighborsListed s"
  shows "\<exists>paths' sp' s'. WrappingPathSearch sp s = Some (paths', sp', s') \<and> grows s s' \<and> covered s'"
  unfolding WrappingPathSearch_def
  by (rule wrapLoop_total [OF assms]) simp_all

section \<open>A populated graph lists the neighbours of its faces\<close>

lemma newTriangle_faces:
  "set (faces (vertexOf (newTriangle t a b c s) x)) \<subseteq> insert t (set (faces (vertexOf s x)))"
  by (auto simp: newTriangle_def Let_def)

lemma newTriangle_degree:
  "degree (faceOf (newTriangle t a b c s) x) = (if x = t then 0 else degree (faceOf s x))"
  by (simp add: newTriangle_def Let_def)

lemma addTriangles_listed:
  assumes "addTriangles ts s = Inr s'"
    and "\<forall>x. set (faces (vertexOf s x)) \<subseteq> set (arrFaces s)"
    and "\<forall>t. degree (faceOf s t) = 0"
  shows "(\<forall>x. set (faces (vertexOf s' x)) \<subseteq> set (arrFaces s')) \<and> (\<forall>t. degree (faceOf s' t) = 0)"
  using assms
proof (induction ts arbitrary: s)
  case Nil
  then show ?case by simp
next
  case (Cons tr ts)
  obtain a b c where tr: "tr = (a, b, c)" by (cases tr)
  let ?t = "length (arrFaces s)"
  from Cons.prems(1) tr obtain va vb vc where
    run: "addTriangles ts ((newTriangle ?t va vb vc s)
        \<lparr>arrFaces := arrFaces (newTriangle ?t va vb vc s) @ [?t]\<rparr>) = Inr s'"
    by (simp add: Let_def split: option.splits)
  let ?s1 = "(newTriangle ?t va vb vc s)\<lparr>arrFaces := arrFaces (newTriangle ?t va vb vc s) @ [?t]\<rparr>"
  have f1: "\<forall>x. set (faces (vertexOf ?s1 x)) \<subseteq> set (arrFaces ?s1)"
  proof
    fix x
    have "set (faces (vertexOf (newTriangle ?t va vb vc s) x)) \<subseteq> insert ?t (set (faces (vertexOf s x)))"
      by (rule newTriangle_faces)
    with Cons.prems(2) show "set (faces (vertexOf ?s1 x)) \<subseteq> set (arrFaces ?s1)" by auto
  qed
  have d1: "\<forall>t. degree (faceOf ?s1 t) = 0"
    using Cons.prems(3) by (simp add: newTriangle_degree)
  from Cons.IH [OF run f1 d1] show ?case .
qed

lemma fold_cost_faces [simp]:
  "faceOf (fold computeEdgeCostAtVertex ws s) = faceOf s"
  "arrFaces (fold computeEdgeCostAtVertex ws s) = arrFaces s"
  "faces (vertexOf (fold computeEdgeCostAtVertex ws s) x) = faces (vertexOf s x)"
  by (induction ws arbitrary: s; simp)+

lemma computeHash_corners [simp]:
  "degree (faceOf (computeHash t s) x) = degree (faceOf s x)"
  "v1 (faceOf (computeHash t s) x) = v1 (faceOf s x)"
  "v2 (faceOf (computeHash t s) x) = v2 (faceOf s x)"
  "v3 (faceOf (computeHash t s) x) = v3 (faceOf s x)"
  by (simp_all add: computeHash_def Let_def)

lemma fold_computeHash_corners [simp]:
  "degree (faceOf (fold computeHash ts s) x) = degree (faceOf s x)"
  "v1 (faceOf (fold computeHash ts s) x) = v1 (faceOf s x)"
  "v2 (faceOf (fold computeHash ts s) x) = v2 (faceOf s x)"
  "v3 (faceOf (fold computeHash ts s) x) = v3 (faceOf s x)"
  by (induction ts arbitrary: s; simp)+

lemma faces_listed_neighbors:
  assumes "\<forall>x. set (faces (vertexOf s x)) \<subseteq> set (arrFaces s)"
  shows "neighborsListed s"
  using assms unfolding neighborsListed_def list_all_iff Triangle_neighbors_def
  by (auto simp: set_setOrder)

lemma populate_listed:
  assumes "populateFromGeometry ps ts = Inr s"
  shows "neighborsListed s \<and> untouched s"
proof -
  from assms obtain s1 where s1: "addTriangles ts (emptyMesh ps) = Inr s1"
    by (cases "addTriangles ts (emptyMesh ps)") (simp_all add: populateFromGeometry_def)
  have "(\<forall>x. set (faces (vertexOf s1 x)) \<subseteq> set (arrFaces s1)) \<and> (\<forall>t. degree (faceOf s1 t) = 0)"
    by (rule addTriangles_listed [OF s1]) (simp_all add: emptyMesh_def newVertex_def)
  then have f1: "\<And>x. set (faces (vertexOf s1 x)) \<subseteq> set (arrFaces s1)"
    and d1: "\<And>t. degree (faceOf s1 t) = 0" by blast+
  from assms s1 have a: "arrFaces s = arrFaces s1"
    and f: "\<And>x. faces (vertexOf s x) = faces (vertexOf s1 x)"
    and d: "\<And>t. degree (faceOf s t) = degree (faceOf s1 t)"
    by (auto simp: populateFromGeometry_def Let_def computeFaceHashes_def)
  have "\<forall>x. set (faces (vertexOf s x)) \<subseteq> set (arrFaces s)" using f1 a f by simp
  then have "neighborsListed s" by (rule faces_listed_neighbors)
  moreover have "untouched s" using d d1 by (simp add: untouched_def list_all_iff)
  ultimately show ?thesis by blast
qed

section \<open>The claims about the searches\<close>

text \<open>
  Claim C10. For every graph, every path returned by \<open>sequentialWalk\<close> has at least 2
  points, and so has every path of a result of \<open>nearestNeighborSearch\<close>; on a graph
  that lists the neighbours of its faces (every populated graph does)
  \<open>nearestNeighborSearch\<close> does return a result.
\<close>

theorem C10_paths_have_two_points:
  "(\<forall>p \<in> set (fst (sequentialWalk sp s)). 2 \<le> length p) \<and>
   (\<forall>res. nearestNeighborSearch sp s = Some res \<longrightarrow> (\<forall>p \<in> set (fst res). 2 \<le> length p)) \<and>
   (neighborsListed s \<longrightarrow> nearestNeighborSearch sp s \<noteq> None)"
proof (intro conjI allI impI)
  show "\<forall>p \<in> set (fst (sequentialWalk sp s)). 2 \<le> length p" by (rule sequentialWalk_paths)
next
  fix res
  assume "nearestNeighborSearch sp s = Some res"
  then show "\<forall>p \<in> set (fst res). 2 \<le> length p" by (rule nearestNeighborSearch_paths)
next
  assume "neighborsListed s"
  from nearestNeighborSearch_total [OF this, of sp] show "nearestNeighborSearch sp s \<noteq> None" by auto
qed

theorem C10_paths_have_two_points_witness:
  "list_all (\<lambda>p. 2 \<le> length p) (fst (sequentialWalk newSearchProcess fanMesh)) \<and>
   (\<exists>res. nearestNeighborSearch newSearchProcess fanMesh = Some res \<and>
          list_all (\<lambda>p. 2 \<le> length p) (fst res))"
proof -
  have "neighborsListed fanMesh" using populate_listed [OF fanMesh_populated] by blast
  with C10_paths_have_two_points [of newSearchProcess fanMesh] show ?thesis
    by (auto simp: list_all_iff)
qed

text \<open>
  Claim C7. On a graph that lists the neighbours of its faces and whose faces all have
  degree 0, \<open>nearestNeighborSearch\<close> (given at least 2 faces) and \<open>WrappingPathSearch\<close>
  both return, keep the faces of the graph, and leave every face with degree at least 1.
  Connectedness of the mesh is not needed.
\<close>

theorem C7_search_covers_faces:
  assumes "neighborsListed s" and "untouched s"
  shows "(2 \<le> length (arrFaces s) \<longrightarrow>
            (\<exists>paths sp' s'. nearestNeighborSearch sp s = Some (paths, sp', s') \<and>
                arrFaces s' = arrFaces s \<and> covered s')) \<and>
         (\<exists>paths sp' s'. WrappingPathSearch sp s = Some (paths, sp', s') \<and>
                arrFaces s' = arrFaces s \<and> covered s')"
proof
  show "2 \<le> length (arrFaces s) \<longrightarrow>
            (\<exists>paths sp' s'. nearestNeighborSearch sp s = Some (paths, sp', s') \<and>
                arrFaces s' = arrFaces s \<and> covered s')"
    using nearestNeighborSearch_total [OF assms(1), of sp] assms(2) grows_arrFaces by blast
  show "\<exists>paths sp' s'. WrappingPathSearch sp s = Some (paths, sp', s') \<and>
                arrFaces s' = arrFaces s \<and> covered s'"
    using WrappingPathSearch_total [OF assms(1), of sp] grows_arrFaces by blast
qed

theorem C7_search_covers_faces_witness:
  "neighborsListed fanMesh \<and> untouched fanMesh \<and> 2 \<le> length (arrFaces fanMesh) \<and>
   (\<exists>paths sp' s'. nearestNeighborSearch newSearchProcess fanMesh = Some (paths, sp', s') \<and>
       arrFaces s' = arrFaces fanMesh \<and> covered s') \<and>
   (\<exists>paths sp' s'. WrappingPathSearch newSearchProcess fanMesh = Some (paths, sp', s') \<and>
       arrFaces s' = arrFaces fanMesh \<and> covered s')"
proof -
  note L = populate_listed [OF fanMesh_populated]
  from L have l: "neighborsListed fanMesh" and u: "untouched fanMesh" by blast+
  obtain s0 where "populateFromGeometry fanPositions fanTriangles = Inr s0" "arrFaces s0 = [0, 1, 2]"
    by (rule fan_states)
  with fanMesh_populated have n: "2 \<le> length (arrFaces fanMesh)" by simp
  from C7_search_covers_faces [OF l u, of newSearchProcess] n l u show ?thesis by blast
qed

end
